theory Spec2Isabelle
  imports Complex_Main
begin

section \<open>Library fragments used by matchit.py\<close>

text \<open>
  The program is a Tk application. Its own code is embedded function by function
  (\<open>directory_type\<close>, \<open>get_arguments\<close>, \<open>MatchGame.__init__\<close>, \<open>restart\<close>, \<open>play\<close>,
  \<open>match_check\<close>, \<open>disappear\<close>, \<open>score_update\<close>, \<open>game_over\<close>, \<open>main\<close>). The library calls
  it makes (\<open>os.path\<close>, \<open>random.shuffle\<close>, the canvas and label widgets, \<open>after\<close>) are
  modelled in this section as far as the program uses them. Exceptions are values of
  type \<open>error\<close>; a function that can raise returns \<open>error + 'a\<close>.
\<close>

datatype error =
    ArgumentTypeError string
  | InvalidChoice string
  | NotADirectoryError
  | IndexError
  | ValueError
  | TclError

definition err_bind :: "error + 'a \<Rightarrow> ('a \<Rightarrow> error + 'b) \<Rightarrow> error + 'b" where
  "err_bind m f = (case m of Inl e \<Rightarrow> Inl e | Inr x \<Rightarrow> f x)"

subsection \<open>Strings and paths\<close>

text \<open>\<open>s.endswith(suf)\<close>.\<close>

definition endswith :: "string \<Rightarrow> string \<Rightarrow> bool" where
  "endswith s suf = (length suf \<le> length s \<and> drop (length s - length suf) s = suf)"

text \<open>\<open>s.rfind(c)\<close> for a single character: the last index of \<open>c\<close>, or \<open>-1\<close>.\<close>

fun rfind :: "char \<Rightarrow> string \<Rightarrow> int" where
  "rfind c [] = - 1"
| "rfind c (x # xs) =
     (let r = rfind c xs in if 0 \<le> r then r + 1 else if x = c then 0 else - 1)"

text \<open>
  The extension \<open>os.path.splitext(p)[1]\<close> on a POSIX system: the suffix from the last dot
  of the last path component, unless that component has only dots before it.
\<close>

definition splitext_ext :: "string \<Rightarrow> string" where
  "splitext_ext p =
     (let sepIndex = rfind (CHR ''/'') p;
          dotIndex = rfind (CHR ''.'') p
      in if dotIndex > sepIndex \<and>
            list_ex (\<lambda>ch. ch \<noteq> CHR ''.'')
              (take (nat (dotIndex - (sepIndex + 1))) (drop (nat (sepIndex + 1)) p))
         then drop (nat dotIndex) p
         else [])"

text \<open>\<open>os.path.join(a, b)\<close> on a POSIX system, for two components.\<close>

definition path_join :: "string \<Rightarrow> string \<Rightarrow> string" where
  "path_join a b =
     (if b \<noteq> [] \<and> hd b = CHR ''/'' then b
      else if a = [] \<or> endswith a ''/'' then a @ b
      else a @ ''/'' @ b)"

definition curdir :: string where
  "curdir = ''.''"

text \<open>
  What the file system holds at a path: nothing, a file that is not a directory, or a
  directory with the names \<open>os.listdir\<close> returns.
\<close>

datatype node = Absent | RegularFile | Directory "string list"

type_synonym filesystem = "string \<Rightarrow> node"

text \<open>Python indexing \<open>xs[i]\<close>: a negative index counts from the end.\<close>

definition py_index :: "'a list \<Rightarrow> int \<Rightarrow> error + 'a" where
  "py_index xs i =
     (let j = (if i < 0 then i + int (length xs) else i)
      in if 0 \<le> j \<and> j < int (length xs) then Inr (xs ! nat j) else Inl IndexError)"

subsection \<open>random.shuffle\<close>

text \<open>
  \<open>random.shuffle(x)\<close> runs \<open>for i in reversed(range(1, len(x))): j = randbelow(i + 1);
  x[i], x[j] = x[j], x[i]\<close>. The random source is the parameter \<open>rnd\<close>: the draw made
  at position \<open>i\<close> is \<open>rnd i mod (i + 1)\<close>.
\<close>

definition swap :: "'a list \<Rightarrow> nat \<Rightarrow> nat \<Rightarrow> 'a list" where
  "swap xs i j = xs[i := xs ! j, j := xs ! i]"

fun shuffle_loop :: "(nat \<Rightarrow> nat) \<Rightarrow> nat \<Rightarrow> 'a list \<Rightarrow> 'a list" where
  "shuffle_loop rnd 0 xs = xs"
| "shuffle_loop rnd (Suc i) xs = shuffle_loop rnd i (swap xs (Suc i) (rnd (Suc i) mod (Suc i + 1)))"

definition shuffle :: "(nat \<Rightarrow> nat) \<Rightarrow> 'a list \<Rightarrow> 'a list" where
  "shuffle rnd xs = shuffle_loop rnd (length xs - 1) xs"

subsection \<open>The canvas\<close>

text \<open>
  A \<open>PhotoImage\<close> is identified by the file it was loaded from: the program creates one
  object per directory entry and compares objects with \<open>==\<close>, which is identity.

  A canvas item is a rectangle or an image; only a rectangle has the option \<open>fill\<close>.
  The tags of an item are a Tcl list: the option value \<open>"box current"\<close> is the list of
  the two tags \<open>box\<close> and \<open>current\<close>. The canvas holds its items in creation order and
  numbers them from 1, never reusing a number.
\<close>

text \<open>
  Three things are outside the model. Tk itself moves the tag \<open>current\<close> to the item
  under the pointer; here the tags of an item change only through the calls the program
  makes. Every file ending in \<open>.gif\<close> is taken to load as an image. The folder is taken
  to list the same names when \<open>directory_type\<close> validates it and when \<open>__init__\<close> loads
  it.
\<close>

type_synonym photo_image = string

datatype item =
    is_rectangle: Rectangle (coords: "rat list") (outline: string) (width: nat) (fill: string)
      (tags: "string list")
  | ImageItem (coords: "rat list") (image: photo_image) (tags: "string list")

record canvas =
  items :: "(nat \<times> item) list"
  next_id :: nat

fun split_words :: "string \<Rightarrow> string \<Rightarrow> string list" where
  "split_words cur [] = (if cur = [] then [] else [cur])"
| "split_words cur (c # cs) =
     (if c = CHR '' '' then (if cur = [] then split_words [] cs else cur # split_words [] cs)
      else split_words (cur @ [c]) cs)"

definition tcl_list :: "string \<Rightarrow> string list" where
  "tcl_list s = split_words [] s"

definition set_tags :: "string \<Rightarrow> item \<Rightarrow> item" where
  "set_tags t it =
     (case it of
        Rectangle c ol w f _ \<Rightarrow> Rectangle c ol w f (tcl_list t)
      | ImageItem c im _ \<Rightarrow> ImageItem c im (tcl_list t))"

definition set_fill :: "string \<Rightarrow> item \<Rightarrow> error + item" where
  "set_fill f it =
     (case it of
        Rectangle c ol w _ ts \<Rightarrow> Inr (Rectangle c ol w f ts)
      | ImageItem c im ts \<Rightarrow> Inl TclError)"

definition empty_canvas :: canvas where
  "empty_canvas = \<lparr>items = [], next_id = 1\<rparr>"

definition create_item :: "item \<Rightarrow> canvas \<Rightarrow> canvas" where
  "create_item it cv = \<lparr>items = items cv @ [(next_id cv, it)], next_id = next_id cv + 1\<rparr>"

definition create_rectangle ::
  "rat \<Rightarrow> rat \<Rightarrow> rat \<Rightarrow> rat \<Rightarrow> string \<Rightarrow> nat \<Rightarrow> string \<Rightarrow> string \<Rightarrow> canvas \<Rightarrow> canvas" where
  "create_rectangle x1 y1 x2 y2 ol w f t cv =
     create_item (Rectangle [x1, y1, x2, y2] ol w f (tcl_list t)) cv"

definition create_image :: "rat \<Rightarrow> rat \<Rightarrow> photo_image \<Rightarrow> string \<Rightarrow> canvas \<Rightarrow> canvas" where
  "create_image x y im t cv = create_item (ImageItem [x, y] im (tcl_list t)) cv"

text \<open>Lookup of an item by its number.\<close>

definition find_item :: "nat \<Rightarrow> canvas \<Rightarrow> item option" where
  "find_item i cv = map_of (items cv) i"

text \<open>
  \<open>itemcget(id, "tag")\<close> and \<open>itemcget(id, "fill")\<close>; Tk returns the empty string for an
  item that does not exist and raises for an option the item type does not have.
\<close>

definition itemcget_tag :: "nat \<Rightarrow> canvas \<Rightarrow> string list" where
  "itemcget_tag i cv = (case find_item i cv of None \<Rightarrow> [] | Some it \<Rightarrow> tags it)"

definition itemcget_fill :: "nat \<Rightarrow> canvas \<Rightarrow> error + string" where
  "itemcget_fill i cv =
     (case find_item i cv of
        None \<Rightarrow> Inr []
      | Some (Rectangle c ol w f ts) \<Rightarrow> Inr f
      | Some (ImageItem c im ts) \<Rightarrow> Inl TclError)"

definition get_coords :: "nat \<Rightarrow> canvas \<Rightarrow> rat list" where
  "get_coords i cv = (case find_item i cv of None \<Rightarrow> [] | Some it \<Rightarrow> coords it)"

text \<open>\<open>find_withtag(t)\<close> and \<open>delete(t)\<close> for a tag name.\<close>

definition find_withtag :: "string \<Rightarrow> canvas \<Rightarrow> nat list" where
  "find_withtag t cv = map fst (filter (\<lambda>(i, it). t \<in> set (tags it)) (items cv))"

definition delete_withtag :: "string \<Rightarrow> canvas \<Rightarrow> canvas" where
  "delete_withtag t cv = cv\<lparr>items := filter (\<lambda>(i, it). t \<notin> set (tags it)) (items cv)\<rparr>"

text \<open>\<open>itemconfigure(id, tag=t)\<close>, \<open>itemconfigure(tag, tag=t)\<close> and
  \<open>itemconfigure(tag, fill=f, tag=t)\<close>.\<close>

definition itemconfigure_id_tag :: "nat \<Rightarrow> string \<Rightarrow> canvas \<Rightarrow> canvas" where
  "itemconfigure_id_tag i t cv =
     cv\<lparr>items := map (\<lambda>(j, it). if j = i then (j, set_tags t it) else (j, it)) (items cv)\<rparr>"

definition itemconfigure_tag :: "string \<Rightarrow> string \<Rightarrow> canvas \<Rightarrow> canvas" where
  "itemconfigure_tag sel t cv =
     cv\<lparr>items := map (\<lambda>(j, it). if sel \<in> set (tags it) then (j, set_tags t it) else (j, it))
        (items cv)\<rparr>"

fun configure_fill_tag ::
  "string \<Rightarrow> string \<Rightarrow> string \<Rightarrow> (nat \<times> item) list \<Rightarrow> error + (nat \<times> item) list" where
  "configure_fill_tag sel f t [] = Inr []"
| "configure_fill_tag sel f t ((j, it) # rest) =
     (if sel \<in> set (tags it) then
        (case set_fill f it of
           Inl e \<Rightarrow> Inl e
         | Inr it' \<Rightarrow>
             (case configure_fill_tag sel f t rest of
                Inl e \<Rightarrow> Inl e
              | Inr rest' \<Rightarrow> Inr ((j, set_tags t it') # rest')))
      else
        (case configure_fill_tag sel f t rest of
           Inl e \<Rightarrow> Inl e
         | Inr rest' \<Rightarrow> Inr ((j, it) # rest')))"

definition itemconfigure_fill_tag :: "string \<Rightarrow> string \<Rightarrow> string \<Rightarrow> canvas \<Rightarrow> error + canvas" where
  "itemconfigure_fill_tag sel f t cv =
     (case configure_fill_tag sel f t (items cv) of
        Inl e \<Rightarrow> Inl e
      | Inr its \<Rightarrow> Inr (cv\<lparr>items := its\<rparr>))"

subsection \<open>The score label\<close>

text \<open>
  The label shows \<open>f'Score: {score}'\<close> or the three lines of \<open>game_over\<close>; the two
  formats are the constructors of \<open>caption\<close>.
\<close>

datatype caption = ScoreText int | GameOverText int int

record label =
  caption_of :: caption
  fg :: string
  font :: "string \<times> nat"
  height :: nat

section \<open>The program\<close>

subsection \<open>directory_type and get_arguments\<close>

definition count_gifs :: "string list \<Rightarrow> nat" where
  "count_gifs file =
     foldl (\<lambda>count file_name. if splitext_ext file_name = ''.gif'' then count + 1 else count) 0 file"

definition directory_type :: "filesystem \<Rightarrow> string \<Rightarrow> error + string" where
  "directory_type fs entered_image_folder =
     (let image_folder = path_join curdir entered_image_folder
      in case fs image_folder of
           Absent \<Rightarrow> Inl (ArgumentTypeError (entered_image_folder @ '' is not a valid folder''))
         | RegularFile \<Rightarrow> Inl NotADirectoryError
         | Directory file \<Rightarrow>
             (let count = count_gifs file
              in if count \<ge> 8 then Inr image_folder
                 else Inl (ArgumentTypeError
                   (entered_image_folder @ '' must contain at least 8 gif images''))))"

record arguments =
  arg_color :: string
  arg_fast :: bool
  arg_image_folder :: string

definition get_arguments :: "filesystem \<Rightarrow> arguments \<Rightarrow> error + (bool \<times> string \<times> string)" where
  "get_arguments fs argv =
     (if arg_color argv \<notin> set [''blue'', ''green'', ''magenta'']
      then Inl (InvalidChoice (arg_color argv))
      else err_bind (directory_type fs (arg_image_folder argv))
             (\<lambda>image_folder. Inr (arg_fast argv, arg_color argv, image_folder)))"

subsection \<open>MatchGame\<close>

text \<open>
  The attributes of a \<open>MatchGame\<close> object. \<open>after_queue\<close> holds the delays of the
  \<open>disappear\<close> callbacks scheduled with \<open>canvas.after\<close> that have not run yet, oldest
  first; all are scheduled with the same delay, so they run in this order.
\<close>

record game =
  score :: int
  color :: string
  timer :: nat
  count :: int
  image_list :: "photo_image list"
  image_dict :: "(string \<times> photo_image) list"
  image_to_compare :: "photo_image list"
  folder_images :: "photo_image list"
  canvas :: canvas
  scoreboard :: label
  after_queue :: "nat list"

text \<open>
  The method \<open>score_update\<close>; the name with the suffix avoids the update function of the
  record field \<open>score\<close>.
\<close>

definition score_update_method :: "game \<Rightarrow> game" where
  "score_update_method s = s\<lparr>scoreboard := (scoreboard s)\<lparr>caption_of := ScoreText (score s)\<rparr>\<rparr>"

definition game_over :: "game \<Rightarrow> game" where
  "game_over s =
     s\<lparr>scoreboard := \<lparr>caption_of = GameOverText (score s) (count s), fg = ''red'',
                       font = (''Helvetica'', 16), height = 4\<rparr>\<rparr>"

definition disappear :: "game \<Rightarrow> game" where
  "disappear s =
     (let s1 = s\<lparr>canvas := delete_withtag ''image'' (canvas s)\<rparr>;
          s2 = s1\<lparr>image_to_compare := []\<rparr>
      in s2\<lparr>canvas := itemconfigure_tag ''selected'' ''box current'' (canvas s2)\<rparr>)"

definition match_check :: "game \<Rightarrow> error + game" where
  "match_check s =
     (if length (image_to_compare s) = 2 then
        (let s1 = s\<lparr>count := count s + 1\<rparr>;
             image_match = (image_to_compare s1 ! 0 = image_to_compare s1 ! 1)
         in err_bind
              (if image_match
               then err_bind (itemconfigure_fill_tag ''selected'' (color s1) ''done'' (canvas s1))
                      (\<lambda>cv. Inr (s1\<lparr>canvas := cv\<rparr>))
               else Inr s1)
              (\<lambda>s2.
                 let s3 = (if count s2 > 13 then score_update_method (s2\<lparr>score := score s2 - 10\<rparr>) else s2)
                 in Inr (s3\<lparr>after_queue := after_queue s3 @ [timer s3]\<rparr>)))
      else Inr s)"

text \<open>
  \<open>play\<close> receives the click through \<open>find_closest(event.x, event.y)\<close>; the geometry is
  not modelled, and the argument \<open>item_id\<close> is the number of the item the canvas reports
  as closest to the click. The branch taken for an item that is tagged \<open>box current\<close> and
  filled yellow is \<open>reveal\<close>.
\<close>

definition reveal :: "nat \<Rightarrow> game \<Rightarrow> error + game" where
  "reveal item_id s =
     (let s1 = s\<lparr>canvas := itemconfigure_id_tag item_id ''selected'' (canvas s)\<rparr>
      in case get_coords item_id (canvas s1) of
           [x1, y1, x2, y2] \<Rightarrow>
             (let x = (x2 - x1) / 2;
                  y = (y2 - y1) / 2
              in err_bind (py_index (folder_images s1) (int item_id - 1))
                   (\<lambda>get_image.
                      let s2 = s1\<lparr>canvas := create_image (x1 + x) (y1 + y) get_image ''image'' (canvas s1)\<rparr>
                      in err_bind (py_index (folder_images s2) (int item_id - 1))
                           (\<lambda>im. Inr (s2\<lparr>image_to_compare := image_to_compare s2 @ [im]\<rparr>))))
         | _ \<Rightarrow> Inl ValueError)"

definition play :: "nat \<Rightarrow> game \<Rightarrow> error + game" where
  "play item_id s =
     err_bind
       (if length (image_to_compare s) \<le> 1 then
          err_bind
            (if itemcget_tag item_id (canvas s) = tcl_list ''box current'' then
               err_bind (itemcget_fill item_id (canvas s))
                 (\<lambda>f. if f = ''yellow'' then reveal item_id s else Inr s)
             else Inr s)
            match_check
        else Inr s)
       (\<lambda>s'. if length (find_withtag ''done'' (canvas s')) = 16 then Inr (game_over s') else Inr s')"

definition restart :: "(nat \<Rightarrow> nat) \<Rightarrow> game \<Rightarrow> error + game" where
  "restart rnd s =
     (let s1 = s\<lparr>score := 100, count := 0\<rparr>;
          s2 = s1\<lparr>scoreboard := (scoreboard s1)\<lparr>fg := ''blue'', font := (''Helvetica'', 32), height := 2\<rparr>\<rparr>;
          s3 = score_update_method s2;
          s4 = s3\<lparr>folder_images := shuffle rnd (folder_images s3)\<rparr>
      in err_bind (itemconfigure_fill_tag ''done'' ''yellow'' ''box current'' (canvas s4))
           (\<lambda>cv. Inr (s4\<lparr>canvas := cv\<rparr>)))"

text \<open>
  \<open>__init__\<close>: \<open>listing\<close> is what \<open>os.listdir()\<close> returns after \<open>os.chdir(folder)\<close>; every
  entry ending in \<open>.gif\<close> is loaded. The grid loop creates the rectangles column by
  column.
\<close>

definition grid_positions :: "(rat \<times> rat) list" where
  "grid_positions = concat (map (\<lambda>x. map (\<lambda>y. (x, y)) [0, 125, 250, 375]) [0, 125, 250, 375])"

definition create_grid :: "string \<Rightarrow> canvas \<Rightarrow> canvas" where
  "create_grid player_color cv =
     foldl (\<lambda>c (x, y). create_rectangle (5 + x) (5 + y) (125 + x) (125 + y) player_color 5
                          ''yellow'' ''box current'' c)
       cv grid_positions"

definition init :: "(nat \<Rightarrow> nat) \<Rightarrow> string \<Rightarrow> string list \<Rightarrow> nat \<Rightarrow> game" where
  "init rnd player_color listing delay =
     (let gifs = filter (\<lambda>file_name. endswith file_name ''.gif'') listing
      in \<lparr>score = 100,
          color = player_color,
          timer = delay * 1000,
          count = 0,
          image_list = gifs,
          image_dict = map (\<lambda>file_name. (file_name, file_name)) gifs,
          image_to_compare = [],
          folder_images = shuffle rnd (gifs @ gifs),
          canvas = create_grid player_color empty_canvas,
          scoreboard = \<lparr>caption_of = ScoreText 100, fg = ''blue'', font = (''Helvetica'', 32),
                         height = 2\<rparr>,
          after_queue = []\<rparr>)"

definition main :: "filesystem \<Rightarrow> (nat \<Rightarrow> nat) \<Rightarrow> arguments \<Rightarrow> error + game" where
  "main fs rnd argv =
     err_bind (get_arguments fs argv)
       (\<lambda>(fast, color, image_folder).
          let speed = (if fast then 1 else 3)
          in case fs image_folder of
               Directory listing \<Rightarrow> Inr (init rnd color listing speed)
             | _ \<Rightarrow> Inl NotADirectoryError)"

text \<open>
  The event loop: a click on the canvas, a click on the RESTART button (with the random
  source its shuffle draws from), or the oldest scheduled \<open>disappear\<close> callback coming
  due.
\<close>

datatype event = Click nat | Restart "nat \<Rightarrow> nat" | Timeout

definition fire :: "game \<Rightarrow> game" where
  "fire s = (case after_queue s of [] \<Rightarrow> s | d # q \<Rightarrow> disappear (s\<lparr>after_queue := q\<rparr>))"

definition handle :: "event \<Rightarrow> game \<Rightarrow> error + game" where
  "handle ev s = (case ev of Click i \<Rightarrow> play i s | Restart rnd \<Rightarrow> restart rnd s | Timeout \<Rightarrow> Inr (fire s))"

fun run :: "event list \<Rightarrow> game \<Rightarrow> error + game" where
  "run [] s = Inr s"
| "run (ev # evs) s = err_bind (handle ev s) (run evs)"

section \<open>Vocabulary of the specification\<close>

text \<open>
  The specification speaks of slots that are Concealed, Revealed or Matched. In the
  program a slot is one of the grid rectangles and its state is read from its tags: the
  click handler accepts a rectangle only when its tags are \<open>box current\<close>, a revealed
  rectangle is tagged \<open>selected\<close>, a matched one \<open>done\<close>. An item that carries none of
  these (an image, or a number the canvas does not hold) has no slot state.
\<close>

datatype slot_state = Concealed | Revealed | Matched

definition slot_state :: "canvas \<Rightarrow> nat \<Rightarrow> slot_state option" where
  "slot_state cv i =
     (let ts = itemcget_tag i cv
      in if ''done'' \<in> set ts then Some Matched
         else if ''selected'' \<in> set ts then Some Revealed
         else if ts = tcl_list ''box current'' then Some Concealed
         else None)"

definition all_matched :: "canvas \<Rightarrow> bool" where
  "all_matched cv = list_all (\<lambda>i. slot_state cv i = Some Matched) [1..<17]"

definition shows_game_over :: "game \<Rightarrow> bool" where
  "shows_game_over s = (case caption_of (scoreboard s) of GameOverText sc n \<Rightarrow> True | ScoreText sc \<Rightarrow> False)"

text \<open>
  The states of a session: \<open>main\<close> builds the first one, and each later one is reached by
  an event the handler of which returns.
\<close>

inductive reachable :: "game \<Rightarrow> bool" where
  start: "main fs rnd argv = Inr s \<Longrightarrow> reachable s"
| step: "reachable s \<Longrightarrow> handle ev s = Inr s' \<Longrightarrow> reachable s'"

subsection \<open>Invariants\<close>

definition item_ok :: "item \<Rightarrow> bool" where
  "item_ok it =
     (case it of
        Rectangle c ol w f ts \<Rightarrow>
          length c = 4 \<and>
          (ts = [''box'', ''current''] \<and> f = ''yellow'' \<or> ts = [''selected''] \<and> f = ''yellow'' \<or>
           ts = [''done''])
      | ImageItem c im ts \<Rightarrow> ts = [''image''])"

definition rect_ids :: "canvas \<Rightarrow> nat list" where
  "rect_ids cv = map fst (filter (\<lambda>(i, it). is_rectangle it) (items cv))"

definition wf_canvas :: "canvas \<Rightarrow> bool" where
  "wf_canvas cv =
     (distinct (map fst (items cv)) \<and> rect_ids cv = [1..<17] \<and>
      list_all (\<lambda>(i, it). item_ok it \<and> i < next_id cv) (items cv))"

text \<open>
  What \<open>itemconfigure(sel, fill=f, tag=t)\<close> computes when every item tagged \<open>sel\<close> is a
  rectangle, and the property of a canvas that all its rectangles are tagged \<open>done\<close>.
\<close>

definition repaint :: "string \<Rightarrow> string \<Rightarrow> string list \<Rightarrow> canvas \<Rightarrow> canvas" where
  "repaint sel f ts cv =
     cv\<lparr>items := map (\<lambda>(j, it). if sel \<in> set (tags it)
                               then (j, Rectangle (coords it) (outline it) (width it) f ts)
                               else (j, it)) (items cv)\<rparr>"

definition all_done :: "canvas \<Rightarrow> bool" where
  "all_done cv = list_all (\<lambda>(i, it). if is_rectangle it then ''done'' \<in> set (tags it) else True) (items cv)"

definition game_over_label :: "game \<Rightarrow> label" where
  "game_over_label s = \<lparr>caption_of = GameOverText (score s) (count s), fg = ''red'',
                         font = (''Helvetica'', 16), height = 4\<rparr>"

definition board_ok :: "game \<Rightarrow> bool" where
  "board_ok s =
     (wf_canvas (canvas s) \<and> 16 \<le> length (folder_images s) \<and>
      length (image_to_compare s) \<le> 2 \<and>
      after_queue s = (if length (image_to_compare s) = 2 then [timer s] else []))"

definition inv :: "game \<Rightarrow> bool" where
  "inv s =
     (board_ok s \<and>
      shows_game_over s = (length (find_withtag ''done'' (canvas s)) = 16) \<and>
      (if shows_game_over s then scoreboard s = game_over_label s else True))"

text \<open>
  The effect of \<open>reveal\<close> on a rectangle tagged \<open>box current\<close> with the corners
  \<open>x1 y1 x2 y2\<close>, the effect of \<open>match_check\<close> on a buffer of two images, and the last
  step of \<open>play\<close>, each on a well-formed canvas; what \<open>disappear\<close> does to the canvas,
  and the effect of \<open>restart\<close>.
\<close>

definition revealed :: "nat \<Rightarrow> rat \<Rightarrow> rat \<Rightarrow> game \<Rightarrow> game" where
  "revealed c x y s =
     s\<lparr>canvas := create_image x y (folder_images s ! (c - 1)) ''image''
                   (itemconfigure_id_tag c ''selected'' (canvas s)),
       image_to_compare := image_to_compare s @ [folder_images s ! (c - 1)]\<rparr>"

definition evaluated :: "game \<Rightarrow> game" where
  "evaluated s =
     s\<lparr>count := count s + 1,
       canvas := (if image_to_compare s ! 0 = image_to_compare s ! 1
                  then repaint ''selected'' (color s) [''done''] (canvas s) else canvas s),
       score := (if count s + 1 > 13 then score s - 10 else score s),
       scoreboard := (if count s + 1 > 13
                      then (scoreboard s)\<lparr>caption_of := ScoreText (score s - 10)\<rparr>
                      else scoreboard s),
       after_queue := after_queue s @ [timer s]\<rparr>"

definition finish :: "game \<Rightarrow> game" where
  "finish s = (if length (find_withtag ''done'' (canvas s)) = 16 then game_over s else s)"

definition cleared :: "canvas \<Rightarrow> canvas" where
  "cleared cv = itemconfigure_tag ''selected'' ''box current'' (delete_withtag ''image'' cv)"

definition restarted :: "(nat \<Rightarrow> nat) \<Rightarrow> game \<Rightarrow> game" where
  "restarted rnd s =
     s\<lparr>score := 100, count := 0,
       scoreboard := \<lparr>caption_of = ScoreText 100, fg = ''blue'', font = (''Helvetica'', 32),
                        height = 2\<rparr>,
       folder_images := shuffle rnd (folder_images s),
       canvas := repaint ''done'' ''yellow'' [''box'', ''current''] (canvas s)\<rparr>"

subsection \<open>A concrete session\<close>

text \<open>
  A folder \<open>img\<close> with eight gif files and one other file, a random source whose draws
  leave every position in place, and the command line \<open>matchit.py -f blue img\<close>. The
  deck is then \<open>a b c d e f g h a b c d e f g h\<close>: rectangles 1 and 9 carry the same
  image, rectangles 1 and 2 different ones.
\<close>

definition gif8 :: "string list" where
  "gif8 = [''a.gif'', ''b.gif'', ''c.gif'', ''d.gif'', ''e.gif'', ''f.gif'', ''g.gif'', ''h.gif'']"

definition fs8 :: filesystem where
  "fs8 p = (if p = ''./img'' then Directory (gif8 @ [''notes.txt'']) else Absent)"

definition fs9 :: filesystem where
  "fs9 p = (if p = ''./img'' then Directory (gif8 @ [''i.gif'']) else Absent)"


definition argv_img :: arguments where
  "argv_img = \<lparr>arg_color = ''blue'', arg_fast = True, arg_image_folder = ''img''\<rparr>"

definition keep :: "nat \<Rightarrow> nat" where
  "keep i = i"

text \<open>A random source whose every draw is 0: the shuffle then rotates the deck by one.\<close>

definition first_slot :: "nat \<Rightarrow> nat" where
  "first_slot i = 0"

definition game8 :: game where
  "game8 = init keep ''blue'' (gif8 @ [''notes.txt'']) 1"

text \<open>
  The state of the concrete session after a list of events, and what is read off the
  result of a run.
\<close>

definition after_events :: "event list \<Rightarrow> game" where
  "after_events evs = (case run evs game8 of Inr s \<Rightarrow> s | Inl e \<Rightarrow> game8)"

definition outcome :: "(game \<Rightarrow> 'a) \<Rightarrow> error + game \<Rightarrow> error + 'a" where
  "outcome f r = (case r of Inl e \<Rightarrow> Inl e | Inr s \<Rightarrow> Inr (f s))"

text \<open>Thirteen mismatches in a row, each followed by its \<open>disappear\<close> callback.\<close>

definition thirteen_misses :: "event list" where
  "thirteen_misses = concat (map (\<lambda>n. [Click 1, Click 2, Timeout]) [0..<13])"

text \<open>
  The concrete session after \<open>k\<close> such rounds: \<open>k\<close> attempts are counted and the canvas
  has handed out two more item numbers per round.
\<close>

definition missed :: "nat \<Rightarrow> game" where
  "missed k = game8\<lparr>count := int k, canvas := (canvas game8)\<lparr>next_id := 17 + 2 * k\<rparr>\<rparr>"

text \<open>The eight pairs of the concrete deck, matched one after the other.\<close>

definition all_pairs :: "event list" where
  "all_pairs = concat (map (\<lambda>i. [Click i, Click (i + 8), Timeout]) [1..<9])"

text \<open>
  A click completes a pair when one image is buffered and the clicked item is tagged
  \<open>box current\<close>: this is when \<open>match_check\<close> finds two images.
\<close>

definition completes_pair :: "nat \<Rightarrow> game \<Rightarrow> bool" where
  "completes_pair c s =
     (length (image_to_compare s) = 1 \<and> itemcget_tag c (canvas s) = tcl_list ''box current'')"

text \<open>
  What the documentation of \<open>os.path.splitext\<close> says, for the extension \<open>.gif\<close>: the
  extension is the part of the name from its last period on, and periods that lead the
  last component of the path are not the start of an extension. So a name has the
  extension \<open>.gif\<close> when it ends in \<open>.gif\<close> and what stands before that in its last
  component is not made of periods only. This is written without reference to
  \<open>splitext_ext\<close> and compared with it below.
\<close>

definition last_component :: "string \<Rightarrow> string" where
  "last_component p = rev (takeWhile (\<lambda>ch. ch \<noteq> CHR ''/'') (rev p))"

definition has_gif_extension :: "string \<Rightarrow> bool" where
  "has_gif_extension n =
     (endswith n ''.gif'' \<and>
      list_ex (\<lambda>ch. ch \<noteq> CHR ''.'') (last_component (take (length n - 4) n)))"




section \<open>Properties of the library fragments\<close>

lemma tcl_list_box_current: "tcl_list ''box current'' = [''box'', ''current'']"
  by (simp add: tcl_list_def)

lemma tcl_list_selected: "tcl_list ''selected'' = [''selected'']"
  by (simp add: tcl_list_def)

lemma tcl_list_done: "tcl_list ''done'' = [''done'']"
  by (simp add: tcl_list_def)

lemma tcl_list_image: "tcl_list ''image'' = [''image'']"
  by (simp add: tcl_list_def)

lemmas tcl_lists = tcl_list_box_current tcl_list_selected tcl_list_done tcl_list_image

lemma count_gifs_foldl:
  "foldl (\<lambda>count file_name. if splitext_ext file_name = ''.gif'' then count + 1 else count) n names
     = n + length (filter (\<lambda>file_name. splitext_ext file_name = ''.gif'') names)"
  by (induction names arbitrary: n) auto

lemma count_gifs_filter:
  "count_gifs file = length (filter (\<lambda>file_name. splitext_ext file_name = ''.gif'') file)"
  by (simp add: count_gifs_def count_gifs_foldl)

lemma drop_eq_endswith: "drop n p = suf \<Longrightarrow> suf \<noteq> [] \<Longrightarrow> endswith p suf"
proof -
  assume d: "drop n p = suf" and ne: "suf \<noteq> []"
  then have "n < length p" by (cases "n < length p") auto
  with d have "length p - length suf = n" by auto
  with d show ?thesis by (auto simp: endswith_def)
qed

lemma splitext_gif_endswith: "splitext_ext p = ''.gif'' \<Longrightarrow> endswith p ''.gif''"
  by (auto simp: splitext_ext_def Let_def split: if_splits intro: drop_eq_endswith)

lemma filter_gif_twice:
  "filter (\<lambda>f. splitext_ext f = ''.gif'') names
     = filter (\<lambda>f. splitext_ext f = ''.gif'') (filter (\<lambda>f. endswith f ''.gif'') names)"
  by (induction names) (auto dest: splitext_gif_endswith)

lemma count_gifs_le_loaded:
  "count_gifs names \<le> length (filter (\<lambda>file_name. endswith file_name ''.gif'') names)"
  unfolding count_gifs_filter by (subst filter_gif_twice) (rule length_filter_le)

lemma directory_type_cases:
  "directory_type fs entered =
     (case fs (path_join curdir entered) of
        Absent \<Rightarrow> Inl (ArgumentTypeError (entered @ '' is not a valid folder''))
      | RegularFile \<Rightarrow> Inl NotADirectoryError
      | Directory file \<Rightarrow>
          if 8 \<le> count_gifs file then Inr (path_join curdir entered)
          else Inl (ArgumentTypeError (entered @ '' must contain at least 8 gif images'')))"
  by (simp add: directory_type_def Let_def split: node.splits)

subsection \<open>The extension test of the validation\<close>











lemma extension_endswith: "has_gif_extension n \<Longrightarrow> endswith n ''.gif''"
  by (simp add: has_gif_extension_def)


section \<open>The canvas invariant\<close>

subsection \<open>Items\<close>

lemma set_tags_simps [simp]:
  "tags (set_tags t it) = tcl_list t"
  "is_rectangle (set_tags t it) = is_rectangle it"
  "coords (set_tags t it) = coords it"
  by (auto simp: set_tags_def split: item.splits)

lemma item_ok_rect_tags:
  "item_ok it \<Longrightarrow> is_rectangle it \<Longrightarrow>
     length (coords it) = 4 \<and>
     (tags it = [''box'', ''current''] \<and> fill it = ''yellow'' \<or>
      tags it = [''selected''] \<and> fill it = ''yellow'' \<or> tags it = [''done''])"
  by (auto simp: item_ok_def split: item.splits)

lemma item_ok_image_tags: "item_ok it \<Longrightarrow> \<not> is_rectangle it \<Longrightarrow> tags it = [''image'']"
  by (auto simp: item_ok_def split: item.splits)

lemma item_ok_tagged_rect:
  "item_ok it \<Longrightarrow> t \<in> set (tags it) \<Longrightarrow> t \<noteq> ''image'' \<Longrightarrow> is_rectangle it"
  by (auto simp: item_ok_def split: item.splits)

lemma item_ok_rect_no_image: "item_ok it \<Longrightarrow> is_rectangle it \<Longrightarrow> ''image'' \<notin> set (tags it)"
  by (auto simp: item_ok_def split: item.splits)

lemma item_ok_select:
  "item_ok it \<Longrightarrow> tags it = [''box'', ''current''] \<Longrightarrow> item_ok (set_tags ''selected'' it)"
  by (auto simp: item_ok_def set_tags_def tcl_lists split: item.splits)

lemma item_ok_release:
  "item_ok it \<Longrightarrow> ''selected'' \<in> set (tags it) \<Longrightarrow> item_ok (set_tags ''box current'' it)"
  by (auto simp: item_ok_def set_tags_def tcl_lists split: item.splits)

subsection \<open>Lists of numbered items\<close>

lemma map_of_retag:
  "map_of (map (\<lambda>(j, it). if P j it then (j, g it) else (j, it)) xs) k
     = map_option (\<lambda>it. if P k it then g it else it) (map_of xs k)"
  by (induction xs) auto

lemma fst_retag:
  "map fst (map (\<lambda>(j, it). if P j it then (j, g it) else (j, it)) xs) = map fst xs"
  by (induction xs) auto

lemma fst_retag_comp:
  "map (fst \<circ> (\<lambda>(j, it). if P j it then (j, g it) else (j, it))) xs = map fst xs"
  by (induction xs) auto

lemma rects_retag:
  "\<forall>(j, it) \<in> set xs. P j it \<longrightarrow> is_rectangle (g it) = is_rectangle it \<Longrightarrow>
   map fst (filter (\<lambda>(i, it). is_rectangle it)
      (map (\<lambda>(j, it). if P j it then (j, g it) else (j, it)) xs))
     = map fst (filter (\<lambda>(i, it). is_rectangle it) xs)"
  by (induction xs) (auto split: if_splits)

lemma configure_fill_tag_total:
  "(\<And>j it. (j, it) \<in> set xs \<Longrightarrow> sel \<in> set (tags it) \<Longrightarrow> is_rectangle it) \<Longrightarrow>
   configure_fill_tag sel f t xs
     = Inr (map (\<lambda>(j, it). if sel \<in> set (tags it)
                          then (j, Rectangle (coords it) (outline it) (width it) f (tcl_list t))
                          else (j, it)) xs)"
proof (induction xs)
  case Nil
  then show ?case by simp
next
  case (Cons a xs)
  obtain j it where a: "a = (j, it)" by (cases a)
  have ih: "configure_fill_tag sel f t xs
     = Inr (map (\<lambda>(j, it). if sel \<in> set (tags it)
                          then (j, Rectangle (coords it) (outline it) (width it) f (tcl_list t))
                          else (j, it)) xs)"
    using Cons by auto
  show ?case
  proof (cases "sel \<in> set (tags it)")
    case True
    then have "is_rectangle it" using Cons.prems a by auto
    then obtain c ol w fl ts where "it = Rectangle c ol w fl ts" by (cases it) auto
    with True ih a show ?thesis by (simp add: set_fill_def set_tags_def)
  next
    case False
    with ih a show ?thesis by simp
  qed
qed

subsection \<open>Well-formed canvases\<close>

lemma wf_canvasD:
  assumes "wf_canvas cv"
  shows "distinct (map fst (items cv))"
    and "rect_ids cv = [1..<17]"
    and "\<And>i it. (i, it) \<in> set (items cv) \<Longrightarrow> item_ok it \<and> i < next_id cv"
  using assms by (auto simp: wf_canvas_def list_all_iff)

lemma wf_canvasI:
  assumes "distinct (map fst (items cv))"
    and "rect_ids cv = [1..<17]"
    and "\<And>i it. (i, it) \<in> set (items cv) \<Longrightarrow> item_ok it \<and> i < next_id cv"
  shows "wf_canvas cv"
  using assms by (auto simp: wf_canvas_def list_all_iff)

lemma wf_find_item:
  "wf_canvas cv \<Longrightarrow> (find_item i cv = Some it) = ((i, it) \<in> set (items cv))"
  by (auto simp: find_item_def dest: wf_canvasD(1) map_of_SomeD)

lemma wf_rect_range:
  assumes "wf_canvas cv" "(i, it) \<in> set (items cv)" "is_rectangle it"
  shows "1 \<le> i \<and> i \<le> 16"
proof -
  from assms(2,3) have "i \<in> set (rect_ids cv)" by (force simp: rect_ids_def)
  with wf_canvasD(2)[OF assms(1)] show ?thesis by auto
qed

lemma wf_slot_exists:
  assumes "wf_canvas cv" "1 \<le> i" "i \<le> 16"
  shows "\<exists>it. find_item i cv = Some it \<and> is_rectangle it"
proof -
  from assms have "i \<in> set (rect_ids cv)" by (simp add: wf_canvasD(2))
  then obtain it where "(i, it) \<in> set (items cv)" "is_rectangle it"
    by (auto simp: rect_ids_def)
  with assms(1) show ?thesis by (auto simp: wf_find_item)
qed

lemma wf_box_current:
  assumes "wf_canvas cv" "itemcget_tag i cv = [''box'', ''current'']"
  shows "\<exists>x1 y1 x2 y2 ol w. find_item i cv = Some (Rectangle [x1, y1, x2, y2] ol w ''yellow'' [''box'', ''current''])
           \<and> 1 \<le> i \<and> i \<le> 16"
proof -
  from assms(2) obtain it where it: "find_item i cv = Some it" "tags it = [''box'', ''current'']"
    by (auto simp: itemcget_tag_def split: option.splits)
  then have mem: "(i, it) \<in> set (items cv)" using assms(1) by (simp add: wf_find_item)
  then have ok: "item_ok it" using wf_canvasD(3)[OF assms(1)] by blast
  with it(2) obtain c ol w where r: "it = Rectangle c ol w ''yellow'' [''box'', ''current'']" "length c = 4"
    by (auto simp: item_ok_def split: item.splits)
  from r(2) obtain x1 y1 x2 y2 where "c = [x1, y1, x2, y2]"
    by (auto simp: length_Suc_conv numeral_eq_Suc)
  moreover have "1 \<le> i \<and> i \<le> 16" using wf_rect_range[OF assms(1) mem] r by simp
  ultimately show ?thesis using it r by auto
qed

subsection \<open>The canvas operations keep the canvas well formed\<close>

lemma wf_select:
  assumes wf: "wf_canvas cv" and t: "itemcget_tag c cv = [''box'', ''current'']"
  shows "wf_canvas (itemconfigure_id_tag c ''selected'' cv)"
proof (rule wf_canvasI)
  show "distinct (map fst (items (itemconfigure_id_tag c ''selected'' cv)))"
    using wf_canvasD(1)[OF wf] by (simp add: itemconfigure_id_tag_def fst_retag fst_retag_comp)
  show "rect_ids (itemconfigure_id_tag c ''selected'' cv) = [1..<17]"
    using wf_canvasD(2)[OF wf]
    by (simp add: itemconfigure_id_tag_def rect_ids_def rects_retag)
  fix i it
  assume "(i, it) \<in> set (items (itemconfigure_id_tag c ''selected'' cv))"
  then obtain it0 where m: "(i, it0) \<in> set (items cv)"
    and e: "it = (if i = c then set_tags ''selected'' it0 else it0)"
    by (auto simp: itemconfigure_id_tag_def split: if_splits)
  from m wf have ok: "item_ok it0 \<and> i < next_id cv" by (blast dest: wf_canvasD(3))
  show "item_ok it \<and> i < next_id (itemconfigure_id_tag c ''selected'' cv)"
  proof (cases "i = c")
    case True
    with m wf have "find_item c cv = Some it0" by (simp add: wf_find_item)
    with t have "tags it0 = [''box'', ''current'']" by (simp add: itemcget_tag_def)
    with ok e True show ?thesis by (simp add: item_ok_select itemconfigure_id_tag_def)
  next
    case False
    with ok e show ?thesis by (simp add: itemconfigure_id_tag_def)
  qed
qed

lemma wf_create_image:
  assumes wf: "wf_canvas cv"
  shows "wf_canvas (create_image x y im ''image'' cv)"
proof (rule wf_canvasI)
  have fresh: "next_id cv \<notin> fst ` set (items cv)"
    using wf_canvasD(3)[OF wf] by force
  then show "distinct (map fst (items (create_image x y im ''image'' cv)))"
    using wf_canvasD(1)[OF wf] by (simp add: create_image_def create_item_def)
  show "rect_ids (create_image x y im ''image'' cv) = [1..<17]"
    using wf_canvasD(2)[OF wf] by (simp add: create_image_def create_item_def rect_ids_def)
  fix i it
  assume "(i, it) \<in> set (items (create_image x y im ''image'' cv))"
  then show "item_ok it \<and> i < next_id (create_image x y im ''image'' cv)"
    using wf_canvasD(3)[OF wf]
    by (auto simp: create_image_def create_item_def item_ok_def tcl_lists less_Suc_eq)
qed

lemma wf_delete_image:
  assumes wf: "wf_canvas cv"
  shows "wf_canvas (delete_withtag ''image'' cv)"
proof (rule wf_canvasI)
  show "distinct (map fst (items (delete_withtag ''image'' cv)))"
    using wf_canvasD(1)[OF wf] by (simp add: delete_withtag_def distinct_map_filter)
  have "filter (\<lambda>(i, it). is_rectangle it) (filter (\<lambda>(i, it). ''image'' \<notin> set (tags it)) (items cv))
          = filter (\<lambda>(i, it). is_rectangle it) (items cv)"
    unfolding filter_filter
    by (rule filter_cong) (auto dest: wf_canvasD(3)[OF wf] item_ok_rect_no_image)
  then show "rect_ids (delete_withtag ''image'' cv) = [1..<17]"
    using wf_canvasD(2)[OF wf] by (simp add: delete_withtag_def rect_ids_def)
  fix i it
  assume "(i, it) \<in> set (items (delete_withtag ''image'' cv))"
  then show "item_ok it \<and> i < next_id (delete_withtag ''image'' cv)"
    using wf_canvasD(3)[OF wf] by (auto simp: delete_withtag_def)
qed

lemma wf_release:
  assumes wf: "wf_canvas cv"
  shows "wf_canvas (itemconfigure_tag ''selected'' ''box current'' cv)"
proof (rule wf_canvasI)
  show "distinct (map fst (items (itemconfigure_tag ''selected'' ''box current'' cv)))"
    using wf_canvasD(1)[OF wf] by (simp add: itemconfigure_tag_def fst_retag fst_retag_comp)
  show "rect_ids (itemconfigure_tag ''selected'' ''box current'' cv) = [1..<17]"
    using wf_canvasD(2)[OF wf]
    by (simp add: itemconfigure_tag_def rect_ids_def rects_retag)
  fix i it
  assume "(i, it) \<in> set (items (itemconfigure_tag ''selected'' ''box current'' cv))"
  then obtain it0 where m: "(i, it0) \<in> set (items cv)"
    and e: "it = (if ''selected'' \<in> set (tags it0) then set_tags ''box current'' it0 else it0)"
    by (auto simp: itemconfigure_tag_def split: if_splits)
  from m wf have "item_ok it0 \<and> i < next_id cv" by (blast dest: wf_canvasD(3))
  with e show "item_ok it \<and> i < next_id (itemconfigure_tag ''selected'' ''box current'' cv)"
    by (simp add: item_ok_release itemconfigure_tag_def)
qed

lemma itemconfigure_fill_tag_repaint:
  assumes wf: "wf_canvas cv" and sel: "sel \<noteq> ''image''"
  shows "itemconfigure_fill_tag sel f t cv = Inr (repaint sel f (tcl_list t) cv)"
proof -
  have "\<And>j it. (j, it) \<in> set (items cv) \<Longrightarrow> sel \<in> set (tags it) \<Longrightarrow> is_rectangle it"
    using wf_canvasD(3)[OF wf] sel by (blast intro: item_ok_tagged_rect)
  then show ?thesis
    by (simp add: itemconfigure_fill_tag_def repaint_def configure_fill_tag_total)
qed

lemma wf_repaint:
  assumes wf: "wf_canvas cv" and sel: "sel \<noteq> ''image''"
    and ts: "ts = [''done''] \<or> ts = [''box'', ''current''] \<and> f = ''yellow''"
  shows "wf_canvas (repaint sel f ts cv)"
proof (rule wf_canvasI)
  have rect: "\<forall>(j, it) \<in> set (items cv). sel \<in> set (tags it) \<longrightarrow> is_rectangle it"
    using wf_canvasD(3)[OF wf] sel by (blast intro: item_ok_tagged_rect)
  show "distinct (map fst (items (repaint sel f ts cv)))"
    using wf_canvasD(1)[OF wf] by (simp add: repaint_def fst_retag fst_retag_comp)
  have "map fst (filter (\<lambda>(i, it). is_rectangle it)
      (map (\<lambda>(j, it). if sel \<in> set (tags it) then (j, (\<lambda>it. Rectangle (coords it) (outline it) (width it) f ts) it) else (j, it)) (items cv)))
     = map fst (filter (\<lambda>(i, it). is_rectangle it) (items cv))"
    by (rule rects_retag) (use rect in auto)
  then show "rect_ids (repaint sel f ts cv) = [1..<17]"
    using wf_canvasD(2)[OF wf] by (simp add: repaint_def rect_ids_def)
  fix i it
  assume "(i, it) \<in> set (items (repaint sel f ts cv))"
  then obtain it0 where m: "(i, it0) \<in> set (items cv)"
    and e: "it = (if sel \<in> set (tags it0) then Rectangle (coords it0) (outline it0) (width it0) f ts else it0)"
    by (auto simp: repaint_def split: if_splits)
  from m wf have ok: "item_ok it0 \<and> i < next_id cv" by (blast dest: wf_canvasD(3))
  show "item_ok it \<and> i < next_id (repaint sel f ts cv)"
  proof (cases "sel \<in> set (tags it0)")
    case True
    with rect m have "is_rectangle it0" by auto
    with ok have "length (coords it0) = 4" by (simp add: item_ok_rect_tags)
    with True e ok ts show ?thesis by (auto simp: item_ok_def repaint_def)
  next
    case False
    with e ok show ?thesis by (simp add: repaint_def)
  qed
qed

subsection \<open>Tags after the canvas operations\<close>

lemma tags_after_select:
  "itemcget_tag k (itemconfigure_id_tag c t cv)
     = (if k = c \<and> find_item c cv \<noteq> None then tcl_list t else itemcget_tag k cv)"
  by (auto simp: itemcget_tag_def find_item_def itemconfigure_id_tag_def map_of_retag
           split: option.splits)

lemma tags_after_retag:
  "itemcget_tag k (itemconfigure_tag sel t cv)
     = (if sel \<in> set (itemcget_tag k cv) then tcl_list t else itemcget_tag k cv)"
  by (auto simp: itemcget_tag_def find_item_def itemconfigure_tag_def map_of_retag
           split: option.splits)

lemma tags_after_repaint:
  "itemcget_tag k (repaint sel f ts cv)
     = (if sel \<in> set (itemcget_tag k cv) then ts else itemcget_tag k cv)"
  by (auto simp: itemcget_tag_def find_item_def repaint_def map_of_retag split: option.splits)

lemma map_of_filter_keep:
  "\<forall>(j, it) \<in> set xs. j = k \<longrightarrow> P j it \<Longrightarrow>
     map_of (filter (\<lambda>(j, it). P j it) xs) k = map_of xs k"
  by (induction xs) auto

lemma tags_after_delete:
  assumes wf: "wf_canvas cv" and k: "''image'' \<notin> set (itemcget_tag k cv)"
  shows "itemcget_tag k (delete_withtag ''image'' cv) = itemcget_tag k cv"
proof -
  have "\<forall>(j, it) \<in> set (items cv). j = k \<longrightarrow> ''image'' \<notin> set (tags it)"
    using k wf by (auto simp: itemcget_tag_def wf_find_item[symmetric])
  then have "map_of (filter (\<lambda>(j, it). ''image'' \<notin> set (tags it)) (items cv)) k = map_of (items cv) k"
    by (rule map_of_filter_keep)
  then show ?thesis by (simp add: itemcget_tag_def find_item_def delete_withtag_def)
qed

subsection \<open>Counting the rectangles tagged done\<close>

lemma length_filter_full: "(length (filter P xs) = length xs) = (\<forall>x \<in> set xs. P x)"
  by (metis filter_id_conv length_filter_less less_irrefl filter_True)

lemma done_count:
  assumes wf: "wf_canvas cv"
  shows "(length (find_withtag ''done'' cv) = 16) = all_done cv"
proof -
  let ?R = "filter (\<lambda>(i, it). is_rectangle it) (items cv)"
  have "filter (\<lambda>(i, it). ''done'' \<in> set (tags it)) (items cv)
          = filter (\<lambda>(i, it). ''done'' \<in> set (tags it)) ?R"
    unfolding filter_filter
    by (rule filter_cong) (auto dest: wf_canvasD(3)[OF wf] intro: item_ok_tagged_rect)
  then have "length (find_withtag ''done'' cv) = length (filter (\<lambda>(i, it). ''done'' \<in> set (tags it)) ?R)"
    by (simp add: find_withtag_def)
  moreover have "length ?R = 16"
  proof -
    have "length ?R = length (rect_ids cv)" by (simp add: rect_ids_def)
    also have "\<dots> = 16" by (simp add: wf_canvasD(2)[OF wf])
    finally show ?thesis .
  qed
  ultimately have "(length (find_withtag ''done'' cv) = 16)
       = (\<forall>x \<in> set ?R. (\<lambda>(i, it). ''done'' \<in> set (tags it)) x)"
    using length_filter_full[of "\<lambda>(i, it). ''done'' \<in> set (tags it)" ?R] by simp
  also have "\<dots> = all_done cv"
    by (auto simp: all_done_def list_all_iff)
  finally show ?thesis .
qed

lemma all_done_matched:
  assumes wf: "wf_canvas cv"
  shows "all_done cv = all_matched cv"
proof
  assume ad: "all_done cv"
  show "all_matched cv"
    unfolding all_matched_def list_all_iff
  proof
    fix i assume "i \<in> set [1..<17]"
    then obtain it where "find_item i cv = Some it" "is_rectangle it"
      using wf_slot_exists[OF wf, of i] by auto
    moreover then have "''done'' \<in> set (tags it)"
      using ad wf by (auto simp: all_done_def list_all_iff wf_find_item)
    ultimately show "slot_state cv i = Some Matched"
      by (simp add: slot_state_def itemcget_tag_def)
  qed
next
  assume am: "all_matched cv"
  show "all_done cv"
    unfolding all_done_def list_all_iff
  proof (clarsimp)
    fix i it assume m: "(i, it) \<in> set (items cv)" and r: "is_rectangle it"
    then have "i \<in> set [1..<17]" using wf_rect_range[OF wf m r] by simp
    with am have "slot_state cv i = Some Matched" by (simp add: all_matched_def list_all_iff)
    moreover have "itemcget_tag i cv = tags it"
      using m wf by (simp add: itemcget_tag_def wf_find_item[symmetric])
    ultimately show "''done'' \<in> set (tags it)"
      by (auto simp: slot_state_def Let_def split: if_splits)
  qed
qed

section \<open>The game invariant\<close>

subsection \<open>The methods on a well-formed board\<close>

lemma length_shuffle_loop: "length (shuffle_loop rnd n xs) = length xs"
  by (induction n arbitrary: xs) (simp_all add: swap_def)

lemma length_shuffle: "length (shuffle rnd xs) = length xs"
  by (simp add: shuffle_def length_shuffle_loop)

lemma py_index_slot:
  "1 \<le> c \<Longrightarrow> c \<le> length xs \<Longrightarrow> py_index xs (int c - 1) = Inr (xs ! (c - 1))"
  by (auto simp: py_index_def Let_def nat_diff_distrib')

lemma reveal_result:
  assumes wf: "wf_canvas (canvas s)" and len: "16 \<le> length (folder_images s)"
    and t: "itemcget_tag c (canvas s) = [''box'', ''current'']"
  shows "\<exists>x y. reveal c s = Inr (revealed c x y s)"
proof -
  from wf_box_current[OF wf t] obtain x1 y1 x2 y2 ol w where
    f: "find_item c (canvas s) = Some (Rectangle [x1, y1, x2, y2] ol w ''yellow'' [''box'', ''current''])"
    and c: "1 \<le> c" "c \<le> 16" by blast
  have co: "get_coords c (itemconfigure_id_tag c ''selected'' (canvas s)) = [x1, y1, x2, y2]"
    using f by (simp add: get_coords_def find_item_def itemconfigure_id_tag_def map_of_retag)
  have ix: "py_index (folder_images s) (int c - 1) = Inr (folder_images s ! (c - 1))"
    using c len by (intro py_index_slot) auto
  have "reveal c s = Inr (revealed c (x1 + (x2 - x1) / 2) (y1 + (y2 - y1) / 2) s)"
    by (simp add: reveal_def co ix err_bind_def revealed_def Let_def)
  then show ?thesis by blast
qed

lemma match_check_skip: "length (image_to_compare s) \<noteq> 2 \<Longrightarrow> match_check s = Inr s"
  by (simp add: match_check_def)

lemma match_check_result:
  assumes wf: "wf_canvas (canvas s)" and two: "length (image_to_compare s) = 2"
  shows "match_check s = Inr (evaluated s)"
proof -
  have "itemconfigure_fill_tag ''selected'' (color s) ''done'' (canvas s)
          = Inr (repaint ''selected'' (color s) [''done''] (canvas s))"
    using itemconfigure_fill_tag_repaint[OF wf, of "''selected''" "color s" "''done''"]
    by (simp add: tcl_lists)
  then show ?thesis
    using two
    by (simp add: match_check_def evaluated_def err_bind_def Let_def score_update_method_def)
qed

lemma restart_result:
  assumes wf: "wf_canvas (canvas s)"
  shows "restart rnd s = Inr (restarted rnd s)"
proof -
  have "itemconfigure_fill_tag ''done'' ''yellow'' ''box current'' (canvas s)
          = Inr (repaint ''done'' ''yellow'' [''box'', ''current''] (canvas s))"
    using itemconfigure_fill_tag_repaint[OF wf, of "''done''" "''yellow''" "''box current''"]
    by (simp add: tcl_lists)
  then show ?thesis
    by (simp add: restart_def restarted_def err_bind_def Let_def score_update_method_def)
qed

lemma itemcget_fill_box:
  assumes wf: "wf_canvas cv" and t: "itemcget_tag c cv = [''box'', ''current'']"
  shows "itemcget_fill c cv = Inr ''yellow''"
  using wf_box_current[OF wf t] by (auto simp: itemcget_fill_def)

text \<open>The three ways a click is handled.\<close>

lemma play_full:
  "length (image_to_compare s) = 2 \<Longrightarrow> play c s = Inr (finish s)"
  by (simp add: play_def err_bind_def finish_def)

lemma play_rejected:
  "length (image_to_compare s) \<le> 1 \<Longrightarrow> itemcget_tag c (canvas s) \<noteq> [''box'', ''current''] \<Longrightarrow>
     play c s = Inr (finish s)"
  by (simp add: play_def err_bind_def finish_def tcl_lists match_check_skip)

lemma play_accepted:
  assumes wf: "wf_canvas (canvas s)" and len: "16 \<le> length (folder_images s)"
    and b: "length (image_to_compare s) \<le> 1"
    and t: "itemcget_tag c (canvas s) = [''box'', ''current'']"
  shows "\<exists>x y. play c s = Inr (finish (if length (image_to_compare s) = 1
                                          then evaluated (revealed c x y s)
                                          else revealed c x y s))"
proof -
  from reveal_result[OF wf len t] obtain x y where r: "reveal c s = Inr (revealed c x y s)"
    by blast
  have wf1: "wf_canvas (canvas (revealed c x y s))"
    by (simp add: revealed_def wf_create_image wf_select[OF wf t])
  have l: "length (image_to_compare (revealed c x y s)) = length (image_to_compare s) + 1"
    by (simp add: revealed_def)
  have m: "match_check (revealed c x y s)
     = Inr (if length (image_to_compare s) = 1 then evaluated (revealed c x y s) else revealed c x y s)"
  proof (cases "length (image_to_compare s) = 1")
    case True
    then show ?thesis using match_check_result[OF wf1] l by simp
  next
    case False
    then show ?thesis using match_check_skip[of "revealed c x y s"] l b by simp
  qed
  have "play c s = Inr (finish (if length (image_to_compare s) = 1
                                          then evaluated (revealed c x y s)
                                          else revealed c x y s))"
    using b t r m itemcget_fill_box[OF wf t]
    by (simp add: play_def err_bind_def finish_def tcl_lists)
  then show ?thesis by blast
qed

subsection \<open>The invariant\<close>

lemma finish_fields [simp]:
  "canvas (finish s) = canvas s"
  "image_to_compare (finish s) = image_to_compare s"
  "folder_images (finish s) = folder_images s"
  "after_queue (finish s) = after_queue s"
  "timer (finish s) = timer s"
  "score (finish s) = score s"
  "count (finish s) = count s"
  "color (finish s) = color s"
  by (simp_all add: finish_def game_over_def)

lemma board_ok_finish: "board_ok (finish s) = board_ok s"
  by (simp add: board_ok_def)

lemma inv_finish:
  assumes "board_ok s" and "shows_game_over s \<Longrightarrow> length (find_withtag ''done'' (canvas s)) = 16"
  shows "inv (finish s)"
proof (cases "length (find_withtag ''done'' (canvas s)) = 16")
  case True
  then have "finish s = game_over s" by (simp add: finish_def)
  moreover have "shows_game_over (game_over s)" by (simp add: shows_game_over_def game_over_def)
  moreover have "scoreboard (game_over s) = game_over_label (game_over s)"
    by (simp add: game_over_def game_over_label_def)
  moreover have "canvas (game_over s) = canvas s" by (simp add: game_over_def)
  ultimately show ?thesis
    using assms(1) True board_ok_finish[of s] by (simp add: inv_def)
next
  case False
  then have "finish s = s" by (simp add: finish_def)
  with assms False show ?thesis by (auto simp: inv_def)
qed

lemma finish_inv: "inv s \<Longrightarrow> finish s = s"
  by (auto simp: inv_def finish_def game_over_def game_over_label_def)

lemma not_all_done_box:
  assumes wf: "wf_canvas cv" and t: "itemcget_tag c cv = [''box'', ''current'']"
  shows "\<not> all_done cv"
proof
  assume ad: "all_done cv"
  from wf_box_current[OF wf t] obtain it where
    f: "find_item c cv = Some it" and r: "is_rectangle it" and ts: "tags it = [''box'', ''current'']"
    by auto
  from f wf have "(c, it) \<in> set (items cv)" by (simp add: wf_find_item)
  with ad r have "''done'' \<in> set (tags it)" by (auto simp: all_done_def list_all_iff)
  with ts show False by simp
qed

lemma inv_not_over_box:
  assumes "inv s" and "itemcget_tag c (canvas s) = [''box'', ''current'']"
  shows "\<not> shows_game_over s"
  using assms not_all_done_box[of "canvas s" c] done_count[of "canvas s"]
  by (auto simp: inv_def board_ok_def)

lemma wf_revealed:
  "wf_canvas (canvas s) \<Longrightarrow> itemcget_tag c (canvas s) = [''box'', ''current''] \<Longrightarrow>
     wf_canvas (canvas (revealed c x y s))"
  by (simp add: revealed_def wf_create_image wf_select)

lemma wf_evaluated: "wf_canvas (canvas s) \<Longrightarrow> wf_canvas (canvas (evaluated s))"
  by (simp add: evaluated_def wf_repaint)

lemma inv_play_accepted:
  assumes i: "inv s" and b: "length (image_to_compare s) \<le> 1"
    and t: "itemcget_tag c (canvas s) = [''box'', ''current'']"
  shows "inv (finish (if length (image_to_compare s) = 1 then evaluated (revealed c x y s)
                      else revealed c x y s))"
proof (rule inv_finish)
  let ?X = "if length (image_to_compare s) = 1 then evaluated (revealed c x y s) else revealed c x y s"
  from i have bo: "board_ok s" by (simp add: inv_def)
  then have wf: "wf_canvas (canvas s)" by (simp add: board_ok_def)
  have q: "after_queue s = []" using bo b by (auto simp: board_ok_def)
  show "board_ok ?X"
  proof (cases "length (image_to_compare s) = 1")
    case True
    have "wf_canvas (canvas (evaluated (revealed c x y s)))"
      by (intro wf_evaluated wf_revealed wf t)
    then show ?thesis
      using True bo q by (simp add: board_ok_def) (simp add: evaluated_def revealed_def)
  next
    case False
    have "wf_canvas (canvas (revealed c x y s))" by (intro wf_revealed wf t)
    then show ?thesis
      using False bo q b by (simp add: board_ok_def) (simp add: revealed_def)
  qed
  have "\<not> shows_game_over s" using inv_not_over_box[OF i t] .
  then have "\<not> shows_game_over ?X"
    by (simp add: shows_game_over_def evaluated_def revealed_def)
  then show "shows_game_over ?X \<Longrightarrow> length (find_withtag ''done'' (canvas ?X)) = 16"
    by simp
qed

lemma inv_play:
  assumes i: "inv s" and p: "play c s = Inr s'"
  shows "inv s'"
proof -
  from i have bo: "board_ok s" by (simp add: inv_def)
  consider "length (image_to_compare s) = 2"
    | "length (image_to_compare s) \<le> 1" "itemcget_tag c (canvas s) \<noteq> [''box'', ''current'']"
    | "length (image_to_compare s) \<le> 1" "itemcget_tag c (canvas s) = [''box'', ''current'']"
    using bo by (fastforce simp: board_ok_def)
  then show ?thesis
  proof cases
    case 1
    with p i show ?thesis by (simp add: play_full finish_inv)
  next
    case 2
    with p i show ?thesis by (simp add: play_rejected finish_inv)
  next
    case 3
    from bo obtain x y where
      "play c s = Inr (finish (if length (image_to_compare s) = 1
                               then evaluated (revealed c x y s) else revealed c x y s))"
      using play_accepted[of s c] 3 by (auto simp: board_ok_def)
    with p inv_play_accepted[OF i 3, of x y] show ?thesis by simp
  qed
qed

lemma slot_range: "(i \<in> set [1..<17]) = (1 \<le> i \<and> i \<le> 16)"
  by auto

lemma not_all_matched_restarted:
  assumes wf: "wf_canvas cv"
  shows "\<not> all_matched (repaint ''done'' ''yellow'' [''box'', ''current''] cv)"
proof
  assume "all_matched (repaint ''done'' ''yellow'' [''box'', ''current''] cv)"
  then have "slot_state (repaint ''done'' ''yellow'' [''box'', ''current''] cv) 1 = Some Matched"
    by (simp add: all_matched_def list_all_iff slot_range)
  then show False
    by (auto simp: slot_state_def tags_after_repaint Let_def split: if_splits)
qed

lemma inv_restarted:
  assumes i: "inv s"
  shows "inv (restarted rnd s)"
proof -
  from i have bo: "board_ok s" by (simp add: inv_def)
  then have wf: "wf_canvas (canvas s)" by (simp add: board_ok_def)
  have wf': "wf_canvas (canvas (restarted rnd s))"
    by (simp add: restarted_def wf_repaint[OF wf])
  have "\<not> all_matched (canvas (restarted rnd s))"
    by (simp add: restarted_def not_all_matched_restarted[OF wf])
  then have nd: "length (find_withtag ''done'' (canvas (restarted rnd s))) \<noteq> 16"
    using done_count[OF wf'] all_done_matched[OF wf'] by simp
  have "board_ok (restarted rnd s)"
    using bo wf' by (simp add: board_ok_def) (simp add: restarted_def length_shuffle)
  moreover have "\<not> shows_game_over (restarted rnd s)"
    by (simp add: shows_game_over_def restarted_def)
  ultimately show ?thesis using nd by (simp add: inv_def)
qed

text \<open>The slots after \<open>disappear\<close>.\<close>

lemma wf_slot_tags:
  assumes wf: "wf_canvas cv" and k: "1 \<le> k" "k \<le> 16"
  shows "itemcget_tag k cv = [''box'', ''current''] \<or> itemcget_tag k cv = [''selected'']
           \<or> itemcget_tag k cv = [''done'']"
proof -
  from wf_slot_exists[OF wf k] obtain it where f: "find_item k cv = Some it" and r: "is_rectangle it"
    by blast
  from f wf have "item_ok it" by (auto simp: wf_find_item dest: wf_canvasD(3))
  with r f show ?thesis by (auto simp: itemcget_tag_def dest: item_ok_rect_tags)
qed

lemma wf_tags_any:
  assumes wf: "wf_canvas cv"
  shows "itemcget_tag k cv \<in> {[], [''image''], [''box'', ''current''], [''selected''], [''done'']}"
proof (cases "find_item k cv")
  case None
  then show ?thesis by (simp add: itemcget_tag_def)
next
  case (Some it)
  with wf have "item_ok it" by (auto simp: wf_find_item dest: wf_canvasD(3))
  with Some show ?thesis
    by (cases "is_rectangle it") (auto simp: itemcget_tag_def dest: item_ok_rect_tags item_ok_image_tags)
qed


lemma wf_cleared: "wf_canvas cv \<Longrightarrow> wf_canvas (cleared cv)"
  by (simp add: cleared_def wf_release wf_delete_image)

lemma tags_cleared:
  assumes wf: "wf_canvas cv" and k: "''image'' \<notin> set (itemcget_tag k cv)"
  shows "itemcget_tag k (cleared cv)
           = (if ''selected'' \<in> set (itemcget_tag k cv) then [''box'', ''current'']
              else itemcget_tag k cv)"
  by (simp add: cleared_def tags_after_retag tags_after_delete[OF wf k] tcl_lists)

lemma slot_cleared:
  assumes wf: "wf_canvas cv" and k: "1 \<le> k" "k \<le> 16"
  shows "slot_state (cleared cv) k
           = (if slot_state cv k = Some Revealed then Some Concealed else slot_state cv k)"
proof -
  have ni: "''image'' \<notin> set (itemcget_tag k cv)" using wf_slot_tags[OF wf k] by auto
  show ?thesis
    using wf_slot_tags[OF wf k]
    by (auto simp: slot_state_def tags_cleared[OF wf ni] tcl_lists)
qed

lemma all_matched_cleared:
  assumes wf: "wf_canvas cv"
  shows "all_matched (cleared cv) = all_matched cv"
  by (auto simp: all_matched_def list_all_iff slot_range slot_cleared[OF wf] split: if_splits)

lemma disappear_canvas: "canvas (disappear s) = cleared (canvas s)"
  by (simp add: disappear_def cleared_def Let_def)

lemma disappear_fields [simp]:
  "image_to_compare (disappear s) = []"
  "folder_images (disappear s) = folder_images s"
  "after_queue (disappear s) = after_queue s"
  "timer (disappear s) = timer s"
  "score (disappear s) = score s"
  "count (disappear s) = count s"
  "scoreboard (disappear s) = scoreboard s"
  "color (disappear s) = color s"
  by (simp_all add: disappear_def Let_def)

lemma inv_fire:
  assumes i: "inv s"
  shows "inv (fire s)"
proof (cases "after_queue s")
  case Nil
  with i show ?thesis by (simp add: fire_def)
next
  case (Cons d q)
  from i have bo: "board_ok s" by (simp add: inv_def)
  then have wf: "wf_canvas (canvas s)" by (simp add: board_ok_def)
  from bo Cons have q: "q = []" by (auto simp: board_ok_def split: if_splits)
  let ?s' = "disappear (s\<lparr>after_queue := q\<rparr>)"
  have f: "fire s = ?s'" using Cons by (simp add: fire_def)
  have wf': "wf_canvas (canvas ?s')" using wf by (simp add: disappear_canvas wf_cleared)
  have bo': "board_ok ?s'"
    using bo wf' q by (simp add: board_ok_def)
  have "(length (find_withtag ''done'' (canvas ?s')) = 16) = (length (find_withtag ''done'' (canvas s)) = 16)"
    using done_count[OF wf'] all_done_matched[OF wf'] done_count[OF wf] all_done_matched[OF wf]
      all_matched_cleared[OF wf]
    by (simp add: disappear_canvas)
  moreover have "shows_game_over ?s' = shows_game_over s"
    by (simp add: shows_game_over_def)
  moreover have "game_over_label ?s' = game_over_label s"
    by (simp add: game_over_label_def)
  ultimately show ?thesis
    using i bo' f by (simp add: inv_def)
qed

subsection \<open>The first state and the reachable states\<close>

lemma upt_Suc0_17: "[Suc 0..<17] = [Suc 0, 2, 3, 4, 5, 6, 7, 8, 9, 10, 11, 12, 13, 14, 15, 16]"
  by (simp add: upt_rec)

lemma create_grid_items:
  "create_grid col empty_canvas =
     \<lparr>items =
        [(1, Rectangle [5, 5, 125, 125] col 5 ''yellow'' [''box'', ''current'']),
         (2, Rectangle [5, 130, 125, 250] col 5 ''yellow'' [''box'', ''current'']),
         (3, Rectangle [5, 255, 125, 375] col 5 ''yellow'' [''box'', ''current'']),
         (4, Rectangle [5, 380, 125, 500] col 5 ''yellow'' [''box'', ''current'']),
         (5, Rectangle [130, 5, 250, 125] col 5 ''yellow'' [''box'', ''current'']),
         (6, Rectangle [130, 130, 250, 250] col 5 ''yellow'' [''box'', ''current'']),
         (7, Rectangle [130, 255, 250, 375] col 5 ''yellow'' [''box'', ''current'']),
         (8, Rectangle [130, 380, 250, 500] col 5 ''yellow'' [''box'', ''current'']),
         (9, Rectangle [255, 5, 375, 125] col 5 ''yellow'' [''box'', ''current'']),
         (10, Rectangle [255, 130, 375, 250] col 5 ''yellow'' [''box'', ''current'']),
         (11, Rectangle [255, 255, 375, 375] col 5 ''yellow'' [''box'', ''current'']),
         (12, Rectangle [255, 380, 375, 500] col 5 ''yellow'' [''box'', ''current'']),
         (13, Rectangle [380, 5, 500, 125] col 5 ''yellow'' [''box'', ''current'']),
         (14, Rectangle [380, 130, 500, 250] col 5 ''yellow'' [''box'', ''current'']),
         (15, Rectangle [380, 255, 500, 375] col 5 ''yellow'' [''box'', ''current'']),
         (16, Rectangle [380, 380, 500, 500] col 5 ''yellow'' [''box'', ''current''])],
      next_id = 17\<rparr>"
  by (simp add: create_grid_def grid_positions_def create_rectangle_def create_item_def
        empty_canvas_def tcl_lists)

lemma wf_create_grid: "wf_canvas (create_grid col empty_canvas)"
  by (simp add: create_grid_items wf_canvas_def rect_ids_def item_ok_def upt_Suc0_17)

lemma find_withtag_grid: "find_withtag ''done'' (create_grid col empty_canvas) = []"
  by (simp add: create_grid_items find_withtag_def)

lemma inv_init:
  assumes "8 \<le> length (filter (\<lambda>file_name. endswith file_name ''.gif'') listing)"
  shows "inv (init rnd col listing delay)"
  using assms
  by (simp add: inv_def board_ok_def init_def Let_def wf_create_grid length_shuffle
        find_withtag_grid shows_game_over_def)

lemma main_init:
  assumes "main fs rnd argv = Inr s"
  shows "\<exists>listing. s = init rnd (arg_color argv) listing (if arg_fast argv then 1 else 3)
           \<and> fs (path_join curdir (arg_image_folder argv)) = Directory listing
           \<and> 8 \<le> count_gifs listing"
  using assms
  by (auto simp: main_def get_arguments_def directory_type_cases err_bind_def Let_def
           split: if_splits node.splits sum.splits)

lemma inv_main: "main fs rnd argv = Inr s \<Longrightarrow> inv s"
proof -
  assume "main fs rnd argv = Inr s"
  from main_init[OF this] obtain listing where
    s: "s = init rnd (arg_color argv) listing (if arg_fast argv then 1 else 3)"
    and c: "8 \<le> count_gifs listing" by blast
  from c count_gifs_le_loaded[of listing]
  have "8 \<le> length (filter (\<lambda>file_name. endswith file_name ''.gif'') listing)" by simp
  then show "inv s" unfolding s by (rule inv_init)
qed

lemma inv_handle:
  assumes "inv s" and "handle ev s = Inr s'"
  shows "inv s'"
proof (cases ev)
  case (Click c)
  with assms show ?thesis by (auto simp: handle_def intro: inv_play)
next
  case (Restart rnd)
  from assms(1) have "wf_canvas (canvas s)" by (simp add: inv_def board_ok_def)
  with assms Restart show ?thesis
    by (auto simp: handle_def restart_result intro: inv_restarted)
next
  case Timeout
  with assms show ?thesis by (auto simp: handle_def intro: inv_fire)
qed

lemma reachable_inv: "reachable s \<Longrightarrow> inv s"
  by (induction rule: reachable.induct) (auto intro: inv_main inv_handle)

lemma inv_wf: "inv s \<Longrightarrow> wf_canvas (canvas s)"
  by (simp add: inv_def board_ok_def)

text \<open>Every handler returns in a reachable state.\<close>

lemma play_total:
  assumes i: "inv s"
  shows "\<exists>s'. play c s = Inr s'"
proof -
  from i have bo: "board_ok s" by (simp add: inv_def)
  consider "length (image_to_compare s) = 2"
    | "length (image_to_compare s) \<le> 1" "itemcget_tag c (canvas s) \<noteq> [''box'', ''current'']"
    | "length (image_to_compare s) \<le> 1" "itemcget_tag c (canvas s) = [''box'', ''current'']"
    using bo by (fastforce simp: board_ok_def)
  then show ?thesis
  proof cases
    case 1 then show ?thesis by (simp add: play_full)
  next
    case 2 then show ?thesis by (simp add: play_rejected)
  next
    case 3
    then show ?thesis using play_accepted[of s c] bo by (auto simp: board_ok_def)
  qed
qed

lemmas canvas_defs = itemcget_tag_def itemcget_fill_def find_item_def get_coords_def
  find_withtag_def delete_withtag_def itemconfigure_id_tag_def itemconfigure_tag_def
  itemconfigure_fill_tag_def set_tags_def set_fill_def create_image_def create_item_def
  tcl_lists py_index_def

lemmas game_defs = play_def reveal_def match_check_def disappear_def restart_def fire_def
  handle_def game_over_def score_update_method_def err_bind_def Let_def

lemma game8_explicit:
  "game8 =
     \<lparr>score = 100, color = ''blue'', timer = 1000, count = 0,
      image_list = gif8,
      image_dict = map (\<lambda>file_name. (file_name, file_name)) gif8,
      image_to_compare = [],
      folder_images = gif8 @ gif8,
      canvas = create_grid ''blue'' empty_canvas,
      scoreboard = \<lparr>caption_of = ScoreText 100, fg = ''blue'', font = (''Helvetica'', 32), height = 2\<rparr>,
      after_queue = []\<rparr>"
  by (simp add: game8_def init_def gif8_def endswith_def shuffle_def swap_def keep_def Let_def)

subsection \<open>Slots after a click\<close>

lemma tags_after_create_full:
  assumes wf: "wf_canvas cv"
  shows "itemcget_tag k (create_image x y im t cv)
           = (if k = next_id cv then tcl_list t else itemcget_tag k cv)"
proof -
  have "next_id cv \<notin> fst ` set (items cv)"
    using wf_canvasD(3)[OF wf] by force
  then have "map_of (items cv) (next_id cv) = None"
    by (simp add: map_of_eq_None_iff)
  then show ?thesis
    by (auto simp: itemcget_tag_def find_item_def create_image_def create_item_def map_add_def
             split: option.splits)
qed

lemma tags_revealed:
  assumes wf: "wf_canvas (canvas s)" and t: "itemcget_tag c (canvas s) = [''box'', ''current'']"
  shows "itemcget_tag k (canvas (revealed c x y s))
           = (if k = c then [''selected'']
              else if k = next_id (canvas s) then [''image'']
              else itemcget_tag k (canvas s))"
proof -
  let ?cv = "itemconfigure_id_tag c ''selected'' (canvas s)"
  have wf': "wf_canvas ?cv" using wf t by (rule wf_select)
  have n: "next_id ?cv = next_id (canvas s)" by (simp add: itemconfigure_id_tag_def)
  from wf_box_current[OF wf t] obtain it where f: "find_item c (canvas s) = Some it" by blast
  then have "(c, it) \<in> set (items (canvas s))" using wf by (simp add: wf_find_item)
  then have "c \<noteq> next_id (canvas s)" using wf_canvasD(3)[OF wf] by force
  then show ?thesis
    using f by (simp add: revealed_def tags_after_create_full[OF wf'] n tags_after_select tcl_lists)
qed

lemma slot_revealed:
  assumes wf: "wf_canvas (canvas s)" and t: "itemcget_tag c (canvas s) = [''box'', ''current'']"
  shows "slot_state (canvas (revealed c x y s)) k
           = (if k = c then Some Revealed else slot_state (canvas s) k)"
proof -
  have "find_item (next_id (canvas s)) (canvas s) = None"
  proof -
    have "next_id (canvas s) \<notin> fst ` set (items (canvas s))"
      using wf_canvasD(3)[OF wf] by force
    then show ?thesis by (simp add: find_item_def map_of_eq_None_iff)
  qed
  then have "itemcget_tag (next_id (canvas s)) (canvas s) = []"
    by (simp add: itemcget_tag_def)
  then show ?thesis
    by (simp add: slot_state_def tags_revealed[OF wf t] tcl_lists)
qed

lemma slot_marked_done:
  "slot_state (repaint ''selected'' f [''done''] cv) k
     = (if slot_state cv k = Some Revealed then Some Matched else slot_state cv k)"
  by (simp add: slot_state_def tags_after_repaint tcl_lists Let_def)

lemma slot_restarted:
  "slot_state (repaint ''done'' ''yellow'' [''box'', ''current''] cv) k
     = (if slot_state cv k = Some Matched then Some Concealed else slot_state cv k)"
  by (simp add: slot_state_def tags_after_repaint tcl_lists Let_def)

lemma slot_box_current:
  "wf_canvas cv \<Longrightarrow> (slot_state cv c = Some Concealed) = (itemcget_tag c cv = [''box'', ''current''])"
  using wf_tags_any[of cv c] by (auto simp: slot_state_def tcl_lists Let_def)

lemma all_matchedD: "all_matched cv \<Longrightarrow> 1 \<le> k \<Longrightarrow> k \<le> 16 \<Longrightarrow> slot_state cv k = Some Matched"
  by (simp add: all_matched_def list_all_iff slot_range)

lemma finish_revealed:
  assumes i: "inv s" and t: "itemcget_tag c (canvas s) = [''box'', ''current'']"
  shows "finish (revealed c x y s) = revealed c x y s"
proof -
  from i have wf: "wf_canvas (canvas s)" by (rule inv_wf)
  have wf': "wf_canvas (canvas (revealed c x y s))" using wf t by (rule wf_revealed)
  have c: "1 \<le> c \<and> c \<le> 16" using wf_box_current[OF wf t] by blast
  have "slot_state (canvas (revealed c x y s)) c = Some Revealed"
    by (simp add: slot_revealed[OF wf t])
  then have "\<not> all_matched (canvas (revealed c x y s))"
    using c all_matchedD[of "canvas (revealed c x y s)" c] by auto
  then have "length (find_withtag ''done'' (canvas (revealed c x y s))) \<noteq> 16"
    using done_count[OF wf'] all_done_matched[OF wf'] by simp
  then show ?thesis by (simp add: finish_def)
qed

lemma play_cases [consumes 1, case_names ignored first second]:
  assumes i: "inv s"
  obtains
    "play c s = Inr s"
      "length (image_to_compare s) = 2 \<or> itemcget_tag c (canvas s) \<noteq> [''box'', ''current'']"
  | x y where "play c s = Inr (revealed c x y s)" "image_to_compare s = []"
      "itemcget_tag c (canvas s) = [''box'', ''current'']"
  | x y where "play c s = Inr (finish (evaluated (revealed c x y s)))"
      "length (image_to_compare s) = 1" "itemcget_tag c (canvas s) = [''box'', ''current'']"
proof -
  from i have bo: "board_ok s" by (simp add: inv_def)
  consider "length (image_to_compare s) = 2"
    | "length (image_to_compare s) \<le> 1" "itemcget_tag c (canvas s) \<noteq> [''box'', ''current'']"
    | "length (image_to_compare s) \<le> 1" "itemcget_tag c (canvas s) = [''box'', ''current'']"
    using bo by (fastforce simp: board_ok_def)
  then show thesis
  proof cases
    case 1
    then show ?thesis using that(1) i by (simp add: play_full finish_inv)
  next
    case 2
    then show ?thesis using that(1) i by (simp add: play_rejected finish_inv)
  next
    case 3
    from bo obtain x y where
      p: "play c s = Inr (finish (if length (image_to_compare s) = 1
                               then evaluated (revealed c x y s) else revealed c x y s))"
      using play_accepted[of s c] 3 by (auto simp: board_ok_def)
    show ?thesis
    proof (cases "length (image_to_compare s) = 1")
      case True
      with p 3 that(3) show ?thesis by simp
    next
      case False
      with 3 have "image_to_compare s = []" by (cases "image_to_compare s") auto
      with p 3 that(2)[of x y] finish_revealed[OF i 3(2)] show ?thesis by simp
    qed
  qed
qed

subsection \<open>Runs\<close>

lemma handle_total:
  assumes "inv s"
  shows "\<exists>s'. handle ev s = Inr s'"
proof (cases ev)
  case (Click c)
  then show ?thesis using play_total[OF assms] by (simp add: handle_def)
next
  case (Restart rnd)
  then show ?thesis using restart_result[OF inv_wf[OF assms]] by (simp add: handle_def)
next
  case Timeout
  then show ?thesis by (simp add: handle_def)
qed

lemma run_total: "inv s \<Longrightarrow> \<exists>s'. run evs s = Inr s'"
proof (induction evs arbitrary: s)
  case Nil
  then show ?case by simp
next
  case (Cons ev evs)
  from handle_total[OF Cons.prems] obtain s1 where h: "handle ev s = Inr s1" by blast
  with Cons.prems have "inv s1" by (blast intro: inv_handle)
  from Cons.IH[OF this] h show ?case by (simp add: err_bind_def)
qed

lemma reachable_run: "reachable s \<Longrightarrow> run evs s = Inr s' \<Longrightarrow> reachable s'"
proof (induction evs arbitrary: s)
  case Nil
  then show ?case by simp
next
  case (Cons ev evs)
  from Cons.prems(2) obtain s1 where h: "handle ev s = Inr s1" and r: "run evs s1 = Inr s'"
    by (auto simp: err_bind_def split: sum.splits)
  from Cons.prems(1) h have "reachable s1" by (rule reachable.step)
  from Cons.IH[OF this r] show ?case .
qed

lemma main_game8: "main fs8 keep argv_img = Inr game8"
  by (simp add: main_def get_arguments_def directory_type_def fs8_def argv_img_def err_bind_def
        path_join_def curdir_def endswith_def count_gifs_def splitext_ext_def game8_def gif8_def
        Let_def)

lemma reachable_game8: "reachable game8"
  using main_game8 by (rule reachable.start)

lemma run_after_events: "run evs game8 = Inr (after_events evs)"
proof -
  from run_total[OF reachable_inv[OF reachable_game8], of evs]
  obtain s' where "run evs game8 = Inr s'" by blast
  then show ?thesis by (simp add: after_events_def)
qed

lemma reachable_after_events: "reachable (after_events evs)"
  using reachable_game8 run_after_events by (rule reachable_run)

section \<open>The claims\<close>

lemmas eval_defs = after_events_def outcome_def game8_explicit gif8_def create_grid_items
  canvas_defs game_defs slot_state_def

lemma run_snoc: "run (evs @ [ev]) s = err_bind (run evs s) (handle ev)"
  by (induction evs arbitrary: s) (auto simp: err_bind_def split: sum.splits)

lemma run_append: "run (evs @ evs') s = err_bind (run evs s) (run evs')"
  by (induction evs arbitrary: s) (auto simp: err_bind_def split: sum.splits)

lemma handle_after_events: "handle ev (after_events evs) = Inr (after_events (evs @ [ev]))"
proof -
  have "err_bind (run evs game8) (handle ev) = Inr (after_events (evs @ [ev]))"
    using run_after_events[of "evs @ [ev]"] by (simp only: run_snoc)
  then show ?thesis by (simp add: run_after_events[of evs] err_bind_def)
qed

lemma play_after_events: "play c (after_events evs) = Inr (after_events (evs @ [Click c]))"
  using handle_after_events[of "Click c" evs] by (simp add: handle_def)










text \<open>
  Claim C6. In a reachable state, a click on a slot that is Revealed or Matched changes
  nothing: \<open>play\<close> returns the state it was given, so the canvas, the buffer, the score,
  the attempt count and the label are all as before.
\<close>

theorem click_on_revealed_or_matched_ignored:
  assumes "reachable s"
    and "slot_state (canvas s) c = Some Revealed \<or> slot_state (canvas s) c = Some Matched"
  shows "play c s = Inr s"
proof -
  from assms(1) have i: "inv s" by (rule reachable_inv)
  have "slot_state (canvas s) c \<noteq> Some Concealed" using assms(2) by auto
  then have t: "itemcget_tag c (canvas s) \<noteq> [''box'', ''current'']"
    by (simp add: slot_box_current[OF inv_wf[OF i]])
  from i show ?thesis
  proof (cases rule: play_cases[where c = c])
    case ignored
    then show ?thesis by simp
  next
    case (first x y)
    with t show ?thesis by simp
  next
    case (second x y)
    with t show ?thesis by simp
  qed
qed

lemma after_click1:
  "slot_state (canvas (after_events [Click 1])) 1 = Some Revealed"
  "image_to_compare (after_events [Click 1]) = [''a.gif'']"
  "slot_state (canvas (after_events [Click 1])) 9 = Some Concealed"
  by (simp_all add: eval_defs)

theorem click_on_revealed_or_matched_ignored_witness:
  "reachable (after_events [Click 1])
   \<and> slot_state (canvas (after_events [Click 1])) 1 = Some Revealed
   \<and> play 1 (after_events [Click 1]) = Inr (after_events [Click 1])"
  using click_on_revealed_or_matched_ignored[OF reachable_after_events, of "[Click 1]" 1]
    after_click1(1) reachable_after_events[of "[Click 1]"]
  by simp

text \<open>
  Claim C7. In every reachable state the buffer \<open>image_to_compare\<close> holds at most two
  images, and while it holds two every click, on whatever item, returns the state
  unchanged.
\<close>

theorem buffer_at_most_two_and_blocks:
  assumes "reachable s"
  shows "length (image_to_compare s) \<le> 2
         \<and> (length (image_to_compare s) = 2 \<longrightarrow> (\<forall>c. play c s = Inr s))"
proof -
  from assms have i: "inv s" by (rule reachable_inv)
  then have "length (image_to_compare s) \<le> 2" by (simp add: inv_def board_ok_def)
  moreover have "play c s = Inr s" if "length (image_to_compare s) = 2" for c
    using that i by (simp add: play_full finish_inv)
  ultimately show ?thesis by blast
qed

lemma after_mismatch:
  "image_to_compare (after_events [Click 1, Click 2]) = [''a.gif'', ''b.gif'']"
  "after_queue (after_events [Click 1, Click 2]) = [1000]"
  "slot_state (canvas (after_events [Click 1, Click 2])) 1 = Some Revealed"
  "slot_state (canvas (after_events [Click 1, Click 2])) 3 = Some Concealed"
  by (simp_all add: eval_defs)

theorem buffer_at_most_two_and_blocks_witness:
  "reachable (after_events [Click 1, Click 2])
   \<and> length (image_to_compare (after_events [Click 1, Click 2])) = 2
   \<and> slot_state (canvas (after_events [Click 1, Click 2])) 3 = Some Concealed
   \<and> play 3 (after_events [Click 1, Click 2]) = Inr (after_events [Click 1, Click 2])"
  using buffer_at_most_two_and_blocks[OF reachable_after_events, of "[Click 1, Click 2]"]
    after_mismatch reachable_after_events[of "[Click 1, Click 2]"]
  by simp

text \<open>
  Claim C8. In every reachable state the label shows the game-over text if and only if
  all 16 slots are Matched, and the condition \<open>play\<close> tests before calling \<open>game_over\<close>
  (16 items tagged \<open>done\<close>) holds if and only if all 16 slots are Matched.
\<close>

theorem game_over_iff_all_matched:
  assumes "reachable s"
  shows "shows_game_over s = all_matched (canvas s)
         \<and> (length (find_withtag ''done'' (canvas s)) = 16) = all_matched (canvas s)"
proof -
  from assms have i: "inv s" by (rule reachable_inv)
  then have wf: "wf_canvas (canvas s)" by (rule inv_wf)
  from i done_count[OF wf] all_done_matched[OF wf] show ?thesis by (simp add: inv_def)
qed

lemma after_all_pairs: "all_matched (canvas (after_events all_pairs))"
  by (simp add: all_pairs_def upt_rec eval_defs all_matched_def)

lemma game8_not_matched: "\<not> all_matched (canvas game8)"
  by (simp add: upt_rec game8_explicit create_grid_items canvas_defs slot_state_def all_matched_def)

theorem game_over_iff_all_matched_witness:
  "reachable (after_events all_pairs) \<and> all_matched (canvas (after_events all_pairs))
   \<and> shows_game_over (after_events all_pairs)
   \<and> reachable game8 \<and> \<not> all_matched (canvas game8) \<and> \<not> shows_game_over game8"
  using game_over_iff_all_matched[OF reachable_after_events, of all_pairs]
    game_over_iff_all_matched[OF reachable_game8]
    after_all_pairs game8_not_matched reachable_after_events[of all_pairs] reachable_game8
  by simp

text \<open>
  Claim C10. In every reachable state \<open>play\<close> returns for every item the canvas can
  report: an item tagged \<open>box current\<close> is one of the rectangles 1 to 16, the deck has at
  least 16 entries, so the lookup \<open>folder_images[item_id - 1]\<close> succeeds; for any other
  item the lookup is not made and the state is returned unchanged.
\<close>

theorem play_total_index_in_range:
  assumes "reachable s"
  shows "(\<exists>s'. play c s = Inr s')
         \<and> (itemcget_tag c (canvas s) = tcl_list ''box current'' \<longrightarrow>
              1 \<le> c \<and> c \<le> 16 \<and> 16 \<le> length (folder_images s)
              \<and> py_index (folder_images s) (int c - 1) = Inr (folder_images s ! (c - 1)))
         \<and> (itemcget_tag c (canvas s) \<noteq> tcl_list ''box current'' \<longrightarrow> play c s = Inr s)"
proof -
  from assms have i: "inv s" by (rule reachable_inv)
  then have wf: "wf_canvas (canvas s)" by (rule inv_wf)
  from i have len: "16 \<le> length (folder_images s)" by (simp add: inv_def board_ok_def)
  have a: "\<exists>s'. play c s = Inr s'" using i by (rule play_total)
  have b: "1 \<le> c \<and> c \<le> 16 \<and> 16 \<le> length (folder_images s)
           \<and> py_index (folder_images s) (int c - 1) = Inr (folder_images s ! (c - 1))"
    if "itemcget_tag c (canvas s) = tcl_list ''box current''"
  proof -
    from that have "itemcget_tag c (canvas s) = [''box'', ''current'']" by (simp add: tcl_lists)
    from wf_box_current[OF wf this] have c: "1 \<le> c" "c \<le> 16" by auto
    with len show ?thesis by (simp add: py_index_slot)
  qed
  have c: "play c s = Inr s" if "itemcget_tag c (canvas s) \<noteq> tcl_list ''box current''"
    using i that by (cases rule: play_cases[where c = c]) (simp_all add: tcl_lists)
  from a b c show ?thesis by blast
qed

lemma game8_slot16:
  "itemcget_tag 16 (canvas game8) = tcl_list ''box current''"
  "folder_images game8 ! 15 = ''h.gif''"
  by (simp_all add: game8_explicit gif8_def create_grid_items canvas_defs)

theorem play_total_index_in_range_witness:
  "reachable game8 \<and> itemcget_tag 16 (canvas game8) = tcl_list ''box current''
   \<and> (\<exists>s'. play 16 game8 = Inr s')
   \<and> py_index (folder_images game8) (int 16 - 1) = Inr ''h.gif''"
  using play_total_index_in_range[OF reachable_game8, of 16] game8_slot16 reachable_game8
  by simp

lemma outcome_after_events: "outcome f (run evs game8) = Inr (f (after_events evs))"
  by (simp add: run_after_events outcome_def)

lemma not_completes_pair:
  "length (image_to_compare s) \<noteq> 1 \<or> itemcget_tag c (canvas s) \<noteq> [''box'', ''current''] \<Longrightarrow>
     \<not> completes_pair c s"
  by (auto simp: completes_pair_def tcl_lists)

lemma completes_pairD:
  "completes_pair c s \<Longrightarrow>
     length (image_to_compare s) = 1 \<and> itemcget_tag c (canvas s) = [''box'', ''current'']"
  by (simp add: completes_pair_def tcl_lists)

lemma evaluated_fields:
  "image_to_compare (evaluated s) = image_to_compare s"
  "count (evaluated s) = count s + 1"
  "score (evaluated s) = (if count s + 1 > 13 then score s - 10 else score s)"
  "timer (evaluated s) = timer s"
  "folder_images (evaluated s) = folder_images s"
  by (simp_all add: evaluated_def)

lemma revealed_fields:
  "image_to_compare (revealed c x y s) = image_to_compare s @ [folder_images s ! (c - 1)]"
  "count (revealed c x y s) = count s"
  "score (revealed c x y s) = score s"
  "color (revealed c x y s) = color s"
  "timer (revealed c x y s) = timer s"
  by (simp_all add: revealed_def)

text \<open>
  Claim C1, as stated, fails: after thirteen mismatches the score is still 100, and the
  fourteenth evaluated pair, two equal images, lowers it to 90.
\<close>

lemma missed_explicit:
  "missed k =
     \<lparr>score = 100, color = ''blue'', timer = 1000, count = int k,
      image_list = gif8,
      image_dict = map (\<lambda>file_name. (file_name, file_name)) gif8,
      image_to_compare = [],
      folder_images = gif8 @ gif8,
      canvas = (create_grid ''blue'' empty_canvas)\<lparr>next_id := 17 + 2 * k\<rparr>,
      scoreboard = \<lparr>caption_of = ScoreText 100, fg = ''blue'', font = (''Helvetica'', 32), height = 2\<rparr>,
      after_queue = []\<rparr>"
  by (simp add: missed_def game8_explicit)

lemma missed_0: "missed 0 = game8"
  by (simp add: missed_explicit game8_explicit create_grid_items)

lemma run_miss_round:
  "k < 13 \<Longrightarrow> run [Click 1, Click 2, Timeout] (missed k) = Inr (missed (Suc k))"
  by (simp add: missed_explicit gif8_def create_grid_items canvas_defs game_defs)

lemma run_misses:
  "k \<le> 13 \<Longrightarrow>
     run (concat (map (\<lambda>n. [Click 1, Click 2, Timeout]) [0..<k])) game8 = Inr (missed k)"
proof (induction k)
  case 0
  then show ?case by (simp add: missed_0)
next
  case (Suc k)
  then have "run (concat (map (\<lambda>n. [Click 1, Click 2, Timeout]) [0..<k])) game8 = Inr (missed k)"
    and "k < 13" by simp_all
  then show ?case
    using run_miss_round[of k]
    by (simp only: upt_Suc_append le0 map_append concat_append run_append err_bind_def
          list.map concat.simps append_Nil2 sum.case)
qed

lemma after_thirteen:
  "after_events (thirteen_misses @ evs) = (case run evs (missed 13) of Inr s \<Rightarrow> s | Inl e \<Rightarrow> game8)"
  using run_misses[of 13]
  by (simp only: after_events_def thirteen_misses_def run_append err_bind_def order_refl sum.case)

lemma thirteen_then_click:
  "(count (after_events (thirteen_misses @ [Click 1])),
    score (after_events (thirteen_misses @ [Click 1])),
    image_to_compare (after_events (thirteen_misses @ [Click 1])),
    itemcget_tag 9 (canvas (after_events (thirteen_misses @ [Click 1]))))
   = (13, 100, [''a.gif''], [''box'', ''current''])"
  by (simp add: after_thirteen missed_explicit gif8_def create_grid_items canvas_defs game_defs)

lemma thirteen_then_match:
  "(count (after_events (thirteen_misses @ [Click 1, Click 9])),
    score (after_events (thirteen_misses @ [Click 1, Click 9])),
    image_to_compare (after_events (thirteen_misses @ [Click 1, Click 9])))
   = (14, 90, [''a.gif'', ''a.gif''])"
  by (simp add: after_thirteen missed_explicit gif8_def create_grid_items canvas_defs game_defs)

theorem score_penalty_on_match_counterexample:
  "outcome (\<lambda>s. (count s, score s)) (run (thirteen_misses @ [Click 1]) game8) = Inr (13, 100)
   \<and> outcome (\<lambda>s. (count s, score s, image_to_compare s))
        (run (thirteen_misses @ [Click 1, Click 9]) game8)
      = Inr (14, 90, [''a.gif'', ''a.gif''])"
  unfolding outcome_after_events using thirteen_then_click thirteen_then_match by simp

text \<open>
  Claim C1, amended. In a reachable state every click returns. When the click completes
  a pair, the attempt count grows by one and the score is unchanged while the new count
  is at most 13 and drops by exactly 10 once it exceeds 13, whether the two images are
  equal or not. Any other click, and the \<open>disappear\<close> callback, leave the attempt count
  and the score as they are.
\<close>

theorem score_penalty_every_attempt:
  assumes "reachable s"
  shows "(\<exists>s'. play c s = Inr s' \<and>
           (if completes_pair c s
            then length (image_to_compare s') = 2 \<and> count s' = count s + 1 \<and>
                 score s' = (if count s' \<le> 13 then score s else score s - 10)
            else count s' = count s \<and> score s' = score s))
         \<and> count (fire s) = count s \<and> score (fire s) = score s"
proof -
  from assms have i: "inv s" by (rule reachable_inv)
  have f: "count (fire s) = count s \<and> score (fire s) = score s"
    by (simp add: fire_def split: list.splits)
  from i have "\<exists>s'. play c s = Inr s' \<and>
           (if completes_pair c s
            then length (image_to_compare s') = 2 \<and> count s' = count s + 1 \<and>
                 score s' = (if count s' \<le> 13 then score s else score s - 10)
            else count s' = count s \<and> score s' = score s)"
  proof (cases rule: play_cases[where c = c])
    case ignored
    then have "\<not> completes_pair c s" by (intro not_completes_pair) auto
    with ignored show ?thesis by simp
  next
    case (first x y)
    then have "\<not> completes_pair c s" by (intro not_completes_pair) auto
    with first show ?thesis by (simp add: revealed_fields)
  next
    case (second x y)
    then have "completes_pair c s" by (simp add: completes_pair_def tcl_lists)
    with second show ?thesis by (simp add: evaluated_fields revealed_fields)
  qed
  with f show ?thesis by simp
qed

theorem score_penalty_every_attempt_witness:
  "reachable (after_events (thirteen_misses @ [Click 1]))
   \<and> completes_pair 9 (after_events (thirteen_misses @ [Click 1]))
   \<and> count (after_events (thirteen_misses @ [Click 1])) = 13
   \<and> score (after_events (thirteen_misses @ [Click 1])) = 100
   \<and> (\<exists>s'. play 9 (after_events (thirteen_misses @ [Click 1])) = Inr s'
         \<and> count s' = 14 \<and> score s' = 90)"
proof -
  let ?s = "after_events (thirteen_misses @ [Click 1])"
  have r: "reachable ?s" by (rule reachable_after_events)
  have c: "completes_pair 9 ?s" "count ?s = 13" "score ?s = 100"
    using thirteen_then_click by (simp_all add: completes_pair_def tcl_lists)
  from score_penalty_every_attempt[OF r, of 9] c
  have "\<exists>s'. play 9 ?s = Inr s' \<and> count s' = 14 \<and> score s' = 90" by auto
  with r c show ?thesis by simp
qed

text \<open>
  Claim C2, as stated, fails: after the match of rectangles 1 and 9 both are Matched,
  but the buffer still holds the two images and a callback is scheduled; a click on the
  Concealed rectangle 2 is then not accepted.
\<close>

lemma after_match:
  "(slot_state (canvas (after_events [Click 1, Click 9])) 1,
    slot_state (canvas (after_events [Click 1, Click 9])) 9,
    image_to_compare (after_events [Click 1, Click 9]),
    after_queue (after_events [Click 1, Click 9]))
   = (Some Matched, Some Matched, [''a.gif'', ''a.gif''], [1000])"
  by (simp add: eval_defs)

lemma after_match_click:
  "(slot_state (canvas (after_events [Click 1, Click 9, Click 2])) 2,
    image_to_compare (after_events [Click 1, Click 9, Click 2]))
   = (Some Concealed, [''a.gif'', ''a.gif''])"
  by (simp add: eval_defs)

theorem match_keeps_buffer_counterexample:
  "outcome (\<lambda>s. (slot_state (canvas s) 1, slot_state (canvas s) 9, image_to_compare s, after_queue s))
     (run [Click 1, Click 9] game8)
     = Inr (Some Matched, Some Matched, [''a.gif'', ''a.gif''], [1000])
   \<and> outcome (\<lambda>s. (slot_state (canvas s) 2, image_to_compare s))
        (run [Click 1, Click 9, Click 2] game8)
      = Inr (Some Concealed, [''a.gif'', ''a.gif''])"
  unfolding outcome_after_events using after_match after_match_click by simp

text \<open>
  Claim C2, amended. When a click in a reachable state completes a pair of equal images,
  the clicked slot and every slot that was Revealed are Matched at once and no slot is
  left Revealed; the buffer is not emptied: it keeps both images, one \<open>disappear\<close>
  callback is scheduled with the session's delay, and until it runs every click returns
  the state unchanged. The callback empties the buffer and changes no slot state.
\<close>

theorem match_marks_done_buffer_stays:
  assumes "reachable s" and "completes_pair c s" and "play c s = Inr s'"
    and "image_to_compare s' ! 0 = image_to_compare s' ! 1"
  shows "slot_state (canvas s') c = Some Matched
         \<and> (\<forall>k. slot_state (canvas s) k = Some Revealed \<longrightarrow> slot_state (canvas s') k = Some Matched)
         \<and> (\<forall>k. slot_state (canvas s') k \<noteq> Some Revealed)
         \<and> length (image_to_compare s') = 2
         \<and> after_queue s' = [timer s']
         \<and> (\<forall>c'. play c' s' = Inr s')
         \<and> image_to_compare (fire s') = []
         \<and> (\<forall>k \<in> {1..16}. slot_state (canvas (fire s')) k = slot_state (canvas s') k)"
proof -
  from assms(1) have i: "inv s" by (rule reachable_inv)
  then have wf: "wf_canvas (canvas s)" by (rule inv_wf)
  from completes_pairD[OF assms(2)]
  have b: "length (image_to_compare s) = 1" and t: "itemcget_tag c (canvas s) = [''box'', ''current'']"
    by simp_all
  from i obtain x y where p: "play c s = Inr (finish (evaluated (revealed c x y s)))"
    using b t by (cases rule: play_cases[where c = c]) auto
  with assms(3) have s': "s' = finish (evaluated (revealed c x y s))" by simp
  have i': "inv s'" using i assms(3) by (rule inv_play)
  then have wf': "wf_canvas (canvas s')" by (rule inv_wf)
  have buf: "image_to_compare s' = image_to_compare (revealed c x y s)"
    by (simp add: s' evaluated_fields)
  have len: "length (image_to_compare s') = 2" by (simp add: buf revealed_fields b)
  have cv: "canvas s' = repaint ''selected'' (color s) [''done''] (canvas (revealed c x y s))"
    using assms(4) by (simp add: s' evaluated_def buf revealed_fields)
  have st: "slot_state (canvas s') k
              = (if k = c \<or> slot_state (canvas s) k = Some Revealed then Some Matched
                 else slot_state (canvas s) k)" for k
    by (simp add: cv slot_marked_done slot_revealed[OF wf t])
  have q: "after_queue s' = [timer s']"
    using i' len by (simp add: inv_def board_ok_def)
  have pl: "play c' s' = Inr s'" for c'
    using i' len by (simp add: play_full finish_inv)
  have fi: "fire s' = disappear (s'\<lparr>after_queue := []\<rparr>)"
    by (simp add: fire_def q)
  have fs: "slot_state (canvas (fire s')) k = slot_state (canvas s') k" if "k \<in> {1..16}" for k
  proof -
    from that have k: "1 \<le> k" "k \<le> 16" by simp_all
    have "slot_state (canvas s') k \<noteq> Some Revealed" by (simp add: st)
    then show ?thesis
      using slot_cleared[OF wf' k] by (simp add: fi disappear_canvas)
  qed
  show ?thesis
    using st len q pl fs by (simp add: fi)
qed

theorem match_marks_done_buffer_stays_witness:
  "reachable (after_events [Click 1])
   \<and> completes_pair 9 (after_events [Click 1])
   \<and> play 9 (after_events [Click 1]) = Inr (after_events [Click 1, Click 9])
   \<and> image_to_compare (after_events [Click 1, Click 9]) ! 0
       = image_to_compare (after_events [Click 1, Click 9]) ! 1
   \<and> slot_state (canvas (after_events [Click 1, Click 9])) 9 = Some Matched
   \<and> length (image_to_compare (after_events [Click 1, Click 9])) = 2
   \<and> play 2 (after_events [Click 1, Click 9]) = Inr (after_events [Click 1, Click 9])
   \<and> image_to_compare (fire (after_events [Click 1, Click 9])) = []"
proof -
  let ?s = "after_events [Click 1]" and ?s' = "after_events [Click 1, Click 9]"
  have r: "reachable ?s" by (rule reachable_after_events)
  have c: "completes_pair 9 ?s"
    using after_click1 wf_tags_any[OF inv_wf[OF reachable_inv[OF r]], of 9]
    by (auto simp: completes_pair_def slot_state_def tcl_lists split: if_splits)
  have p: "play 9 ?s = Inr ?s'" using play_after_events[of 9 "[Click 1]"] by simp
  have e: "image_to_compare ?s' ! 0 = image_to_compare ?s' ! 1" using after_match by simp
  from match_marks_done_buffer_stays[OF r c p e] r c p e show ?thesis by simp
qed

text \<open>
  Claim C9, as stated, fails: \<open>restart\<close> leaves the callback of a mismatch scheduled, and
  when it runs on the restarted board it returns the two Revealed rectangles to
  Concealed and empties the buffer.
\<close>

lemma after_mismatch_restart:
  "(slot_state (canvas (after_events [Click 1, Click 2, Restart keep])) 1,
    slot_state (canvas (after_events [Click 1, Click 2, Restart keep])) 2,
    image_to_compare (after_events [Click 1, Click 2, Restart keep]),
    after_queue (after_events [Click 1, Click 2, Restart keep]))
   = (Some Revealed, Some Revealed, [''a.gif'', ''b.gif''], [1000])"
  by (simp add: eval_defs shuffle_def swap_def keep_def)

lemma after_mismatch_restart_timeout:
  "(slot_state (canvas (after_events [Click 1, Click 2, Restart keep, Timeout])) 1,
    slot_state (canvas (after_events [Click 1, Click 2, Restart keep, Timeout])) 2,
    image_to_compare (after_events [Click 1, Click 2, Restart keep, Timeout]),
    after_queue (after_events [Click 1, Click 2, Restart keep, Timeout]))
   = (Some Concealed, Some Concealed, [], [])"
  by (simp add: eval_defs shuffle_def swap_def keep_def)

theorem stale_timer_counterexample:
  "outcome (\<lambda>s. (slot_state (canvas s) 1, slot_state (canvas s) 2, image_to_compare s, after_queue s))
     (run [Click 1, Click 2, Restart keep] game8)
     = Inr (Some Revealed, Some Revealed, [''a.gif'', ''b.gif''], [1000])
   \<and> outcome (\<lambda>s. (slot_state (canvas s) 1, slot_state (canvas s) 2, image_to_compare s, after_queue s))
        (run [Click 1, Click 2, Restart keep, Timeout] game8)
      = Inr (Some Concealed, Some Concealed, [], [])"
  unfolding outcome_after_events using after_mismatch_restart after_mismatch_restart_timeout by simp

text \<open>
  Claim C9, amended. \<open>restart\<close> in a reachable state returns and cancels nothing: the
  callbacks scheduled before it are scheduled after it. When none is scheduled, a timeout
  changes nothing. When one is, it runs on the board it finds after the restart: it
  leaves the buffer empty and no callback scheduled, turns to Concealed a slot it finds
  Revealed, and leaves every other slot, the score 100, the attempt count 0, the new deck
  and the label as it finds them.
\<close>

theorem stale_timer_after_restart:
  assumes "reachable s"
  shows "\<exists>s'. restart rnd s = Inr s'
           \<and> after_queue s' = after_queue s
           \<and> score (fire s') = 100 \<and> count (fire s') = 0
           \<and> folder_images (fire s') = folder_images s' \<and> scoreboard (fire s') = scoreboard s'
           \<and> (if after_queue s = [] then fire s' = s'
               else image_to_compare (fire s') = [] \<and> after_queue (fire s') = []
                    \<and> (\<forall>k \<in> {1..16}. slot_state (canvas (fire s')) k
                          = (if slot_state (canvas s') k = Some Revealed then Some Concealed
                             else slot_state (canvas s') k)))"
proof -
  from assms have i: "inv s" by (rule reachable_inv)
  let ?s' = "restarted rnd s"
  have r: "restart rnd s = Inr ?s'" using inv_wf[OF i] by (rule restart_result)
  have i': "inv ?s'" using i by (rule inv_restarted)
  then have wf': "wf_canvas (canvas ?s')" by (rule inv_wf)
  have q: "after_queue ?s' = after_queue s" "score ?s' = 100" "count ?s' = 0"
    by (simp_all add: restarted_def)
  have keep: "score (fire ?s') = 100 \<and> count (fire ?s') = 0
           \<and> folder_images (fire ?s') = folder_images ?s' \<and> scoreboard (fire ?s') = scoreboard ?s'"
    using q by (simp add: fire_def split: list.splits)
  have rest: "if after_queue s = [] then fire ?s' = ?s'
               else image_to_compare (fire ?s') = [] \<and> after_queue (fire ?s') = []
                    \<and> (\<forall>k \<in> {1..16}. slot_state (canvas (fire ?s')) k
                          = (if slot_state (canvas ?s') k = Some Revealed then Some Concealed
                             else slot_state (canvas ?s') k))"
  proof (cases "after_queue s")
    case Nil
    then show ?thesis using q by (simp add: fire_def)
  next
    case (Cons d ds)
    with i' q have ds: "ds = []" by (auto simp: inv_def board_ok_def split: if_splits)
    have f: "fire ?s' = disappear (?s'\<lparr>after_queue := []\<rparr>)"
      using Cons ds q by (simp add: fire_def)
    have "slot_state (canvas (fire ?s')) k
            = (if slot_state (canvas ?s') k = Some Revealed then Some Concealed
               else slot_state (canvas ?s') k)" if "k \<in> {1..16}" for k
      using that slot_cleared[OF wf', of k] by (simp add: f disappear_canvas)
    then show ?thesis using Cons by (simp add: f)
  qed
  from r q keep rest show ?thesis by auto
qed

theorem stale_timer_after_restart_witness:
  "reachable (after_events [Click 1, Click 2])
   \<and> after_queue (after_events [Click 1, Click 2]) = [1000]
   \<and> (\<exists>s'. restart keep (after_events [Click 1, Click 2]) = Inr s'
         \<and> after_queue s' = [1000] \<and> image_to_compare (fire s') = []
         \<and> score (fire s') = 100 \<and> count (fire s') = 0)"
proof -
  let ?s = "after_events [Click 1, Click 2]"
  have r: "reachable ?s" by (rule reachable_after_events)
  from stale_timer_after_restart[OF r, of keep] after_mismatch(2)
  have "\<exists>s'. restart keep ?s = Inr s'
         \<and> after_queue s' = [1000] \<and> image_to_compare (fire s') = []
         \<and> score (fire s') = 100 \<and> count (fire s') = 0"
    by auto
  with r after_mismatch(2) show ?thesis by simp
qed

text \<open>
  Claim C3 at a failing input: rectangle 1 is revealed, then RESTART is clicked. The
  score is 100 and the attempt count 0, but the buffer still holds the old image, the
  rectangle is still Revealed and its image is still on the canvas, while the new deck
  binds another image to it. A click on rectangle 16, which the new deck binds to the
  old image, then marks rectangles 1 and 16 Matched although the deck binds different
  images to them.
\<close>

theorem restart_keeps_selection:
  "outcome (\<lambda>s. (score s, count s, image_to_compare s, slot_state (canvas s) 1,
                 length (find_withtag ''image'' (canvas s)), folder_images s ! 0))
     (run [Click 1, Restart first_slot] game8)
     = Inr (100, 0, [''a.gif''], Some Revealed, 1, ''b.gif'')
   \<and> outcome (\<lambda>s. (slot_state (canvas s) 1, slot_state (canvas s) 16,
                    folder_images s ! 0, folder_images s ! 15))
        (run [Click 1, Restart first_slot, Click 16] game8)
      = Inr (Some Matched, Some Matched, ''b.gif'', ''a.gif'')"
  by (simp add: eval_defs shuffle_def swap_def first_slot_def)

text \<open>
  Claim C4 at a failing input: a folder with nine gif files passes \<open>directory_type\<close>, and
  the deck \<open>__init__\<close> builds has 18 entries of 9 distinct images for the 16 rectangles;
  the first 16 entries, the ones the rectangles use, hold two of the images only once.
\<close>

theorem deck_of_nine_gifs:
  "outcome (\<lambda>s. (length (folder_images s), length (remdups (folder_images s)),
                 length (rect_ids (canvas s)),
                 map (count_list (take 16 (folder_images s))) [''g.gif'', ''h.gif'', ''i.gif'']))
     (main fs9 keep argv_img)
     = Inr (18, 9, 16, [2, 1, 1])"
  by (simp add: outcome_def main_def get_arguments_def directory_type_def fs9_def argv_img_def
        err_bind_def path_join_def curdir_def endswith_def count_gifs_def splitext_ext_def
        gif8_def Let_def init_def shuffle_def swap_def keep_def create_grid_items rect_ids_def)

text \<open>
  For a folder with exactly eight gif files the deck has 16 entries; in general it has
  twice as many entries as the folder has names ending in \<open>.gif\<close>.
\<close>

lemma deck_length:
  "length (folder_images (init rnd col listing delay))
     = 2 * length (filter (\<lambda>file_name. endswith file_name ''.gif'') listing)"
  by (simp add: init_def Let_def length_shuffle)

end
